theory Spec2Isabelle
  imports Main
begin

section \<open>Strings of the host language\<close>

text \<open>
  A source string is a list of code units; the model covers the code units below 256,
  one \<^typ>\<open>char\<close> each. The white space of \<^verbatim>\<open>String.prototype.trim\<close> and of the
  regular-expression class \<^verbatim>\<open>\s\<close> is the same set: in this range TAB, LF, VT, FF, CR,
  SPACE and NO-BREAK SPACE. The class \<^verbatim>\<open>\w\<close> is \<^verbatim>\<open>[A-Za-z0-9_]\<close>.
\<close>

definition isSpace :: "char \<Rightarrow> bool" where
  "isSpace c = (c \<in> set [CHR 0x09, CHR 0x0A, CHR 0x0B, CHR 0x0C, CHR 0x0D, CHR 0x20, CHR 0xA0])"

definition isAlphaU :: "char \<Rightarrow> bool" where
  "isAlphaU c = (c \<in> set ''abcdefghijklmnopqrstuvwxyzABCDEFGHIJKLMNOPQRSTUVWXYZ_'')"

definition isWord :: "char \<Rightarrow> bool" where
  "isWord c = (isAlphaU c \<or> c \<in> set ''0123456789'')"

definition trim :: "string \<Rightarrow> string" where
  "trim s = rev (dropWhile isSpace (rev (dropWhile isSpace s)))"

definition startsWith :: "string \<Rightarrow> string \<Rightarrow> bool" where
  "startsWith s p = (take (length p) s = p)"

definition endsWith :: "string \<Rightarrow> string \<Rightarrow> bool" where
  "endsWith s p = (length p \<le> length s \<and> drop (length s - length p) s = p)"

text \<open>\<^verbatim>\<open>text.split('\n')\<close>: always at least one line; a final newline gives a final empty line.\<close>

fun split_nl :: "string \<Rightarrow> string list" where
  "split_nl [] = [[]]"
| "split_nl (c # cs) =
     (if c = CHR 0x0A then [] # split_nl cs
      else (case split_nl cs of l # ls \<Rightarrow> (c # l) # ls | [] \<Rightarrow> [[c]]))"

text \<open>\<^verbatim>\<open>lines.join('\n')\<close>.\<close>

fun join_nl :: "string list \<Rightarrow> string" where
  "join_nl [] = []"
| "join_nl [l] = l"
| "join_nl (l # m # ls) = l @ CHR 0x0A # join_nl (m # ls)"

text \<open>\<^verbatim>\<open>lines.slice(a, b)\<close> for indices \<open>0 \<le> a\<close>, \<open>0 \<le> b\<close>.\<close>

definition slice :: "'a list \<Rightarrow> nat \<Rightarrow> nat \<Rightarrow> 'a list" where
  "slice xs a b = take (b - a) (drop a xs)"

section \<open>Regular expressions\<close>

text \<open>
  The regular expressions of the source use literals, character classes, greedy \<^verbatim>\<open>*\<close> and
  \<^verbatim>\<open>+\<close> on a single class, sequence, alternation, the anchors \<^verbatim>\<open>^\<close> and \<^verbatim>\<open>$\<close> (no flag
  is ever set, so they mean start and end of the input), the word boundary \<^verbatim>\<open>\b\<close>, one
  negative lookahead and capture groups. They are embedded as terms and run by a
  backtracking matcher that lists the outcomes in the order the host's matcher tries them:
  a greedy quantifier offers the longest repetition first, an alternation its left
  branch first.

  A position is the code unit before the cursor (\<open>None\<close> at the start of the input)
  and the rest of the input.
\<close>

datatype rx =
    Lit string
  | Cls "char \<Rightarrow> bool"
  | Star "char \<Rightarrow> bool"
  | Plus "char \<Rightarrow> bool"
  | Seq rx rx
  | Alt rx rx
  | Bol
  | Eol
  | WordB
  | NotAhead rx
  | Grp rx

type_synonym pos = "char option \<times> string"

definition advance :: "pos \<Rightarrow> nat \<Rightarrow> pos" where
  "advance st n =
     (if n = 0 then st else (Some (snd st ! (n - 1)), drop n (snd st)))"

definition wordBefore :: "pos \<Rightarrow> bool" where
  "wordBefore st = (case fst st of None \<Rightarrow> False | Some c \<Rightarrow> isWord c)"

definition wordAfter :: "pos \<Rightarrow> bool" where
  "wordAfter st = (case snd st of [] \<Rightarrow> False | c # _ \<Rightarrow> isWord c)"

text \<open>
  \<open>run r st\<close>: every way \<open>r\<close> matches at \<open>st\<close>, as the position reached and the texts
  captured by the groups of \<open>r\<close> (in the order of their opening parentheses).
\<close>

fun run :: "rx \<Rightarrow> pos \<Rightarrow> (pos \<times> string list) list" where
  "run (Lit l) st =
     (if take (length l) (snd st) = l then [(advance st (length l), [])] else [])"
| "run (Cls P) st =
     (case snd st of [] \<Rightarrow> [] | c # cs \<Rightarrow> if P c then [((Some c, cs), [])] else [])"
| "run (Star P) st =
     map (\<lambda>n. (advance st n, [])) (rev [0 ..< Suc (length (takeWhile P (snd st)))])"
| "run (Plus P) st =
     map (\<lambda>n. (advance st n, [])) (rev [1 ..< Suc (length (takeWhile P (snd st)))])"
| "run (Seq a b) st =
     concat (map (\<lambda>(st1, c1). map (\<lambda>(st2, c2). (st2, c1 @ c2)) (run b st1)) (run a st))"
| "run (Alt a b) st = run a st @ run b st"
| "run Bol st = (if fst st = None then [(st, [])] else [])"
| "run Eol st = (if snd st = [] then [(st, [])] else [])"
| "run WordB st = (if wordBefore st \<noteq> wordAfter st then [(st, [])] else [])"
| "run (NotAhead r) st = (if run r st = [] then [(st, [])] else [])"
| "run (Grp r) st =
     map (\<lambda>(st', c). (st', take (length (snd st) - length (snd st')) (snd st) # c)) (run r st)"

text \<open>
  An unanchored match tries each start position from the left and takes the first
  outcome of the first position that has one (\<^verbatim>\<open>RegExp.prototype.exec\<close> without flags);
  \<^verbatim>\<open>test\<close> asks whether there is one, \<^verbatim>\<open>String.prototype.match\<close> returns the captures.
\<close>

fun search :: "rx \<Rightarrow> pos \<Rightarrow> (pos \<times> string list) option" where
  "search r (p, []) = (case run r (p, []) of m # _ \<Rightarrow> Some m | [] \<Rightarrow> None)"
| "search r (p, c # cs) =
     (case run r (p, c # cs) of m # _ \<Rightarrow> Some m | [] \<Rightarrow> search r (Some c, cs))"

definition exec :: "rx \<Rightarrow> string \<Rightarrow> (pos \<times> string list) option" where
  "exec r s = search r (None, s)"

definition test :: "rx \<Rightarrow> string \<Rightarrow> bool" where
  "test r s = (exec r s \<noteq> None)"

definition match :: "rx \<Rightarrow> string \<Rightarrow> string list option" where
  "match r s = map_option snd (exec r s)"

fun seqs :: "rx list \<Rightarrow> rx" where
  "seqs [] = Lit []"
| "seqs [r] = r"
| "seqs (r # rs) = Seq r (seqs rs)"

fun alts :: "rx list \<Rightarrow> rx" where
  "alts [] = Cls (\<lambda>_. False)"
| "alts [r] = r"
| "alts (r # rs) = Alt r (alts rs)"

definition oneOf :: "string \<Rightarrow> char \<Rightarrow> bool" where
  "oneOf cs c = (c \<in> set cs)"

definition noneOf :: "string \<Rightarrow> char \<Rightarrow> bool" where
  "noneOf cs c = (c \<notin> set cs)"

section \<open>The terminator classifier\<close>

definition backslash :: char where
  "backslash = CHR 0x5C"

text \<open>\<^verbatim>\<open>/[{},:\\]$/\<close>\<close>
definition rxStructuralEnd :: rx where
  "rxStructuralEnd = seqs [Cls (oneOf (''{},:'' @ [backslash])), Eol]"

text \<open>\<^verbatim>\<open>/^#|^\/\/|^\/\*|\*\/$/\<close>\<close>
definition rxDirectiveOrComment :: rx where
  "rxDirectiveOrComment =
     alts [seqs [Bol, Lit ''#''], seqs [Bol, Lit ''//''], seqs [Bol, Lit ''/*''],
           seqs [Lit ''*/'', Eol]]"

text \<open>\<^verbatim>\<open>/^\s*(if|else\s+if|else|while|for|do|switch)\b/\<close>\<close>
definition rxControl :: rx where
  "rxControl =
     seqs [Bol, Star isSpace,
           Grp (alts [Lit ''if'', seqs [Lit ''else'', Plus isSpace, Lit ''if''], Lit ''else'',
                      Lit ''while'', Lit ''for'', Lit ''do'', Lit ''switch'']),
           WordB]"

text \<open>\<^verbatim>\<open>/^\s*(case|default)\b/\<close>\<close>
definition rxLabel :: rx where
  "rxLabel = seqs [Bol, Star isSpace, Grp (alts [Lit ''case'', Lit ''default'']), WordB]"

text \<open>\<^verbatim>\<open>(int|void|char|float|double|long|short|unsigned|signed)\<close>\<close>
definition typeKeywords :: "string list" where
  "typeKeywords =
     [''int'', ''void'', ''char'', ''float'', ''double'', ''long'', ''short'', ''unsigned'',
      ''signed'']"

text \<open>
  \<^verbatim>\<open>/^\s*(int|void|char|float|double|long|short|unsigned|signed)\s+\w+\s*\([^)]*\)\s*$/\<close>
\<close>
definition rxSignature :: rx where
  "rxSignature =
     seqs [Bol, Star isSpace, Grp (alts (map Lit typeKeywords)), Plus isSpace, Plus isWord,
           Star isSpace, Lit ''('', Star (noneOf '')''), Lit '')'', Star isSpace, Eol]"

text \<open>\<^verbatim>\<open>/^\s*(struct|union|enum|typedef)\b/\<close>\<close>
definition rxTypeDef :: rx where
  "rxTypeDef =
     seqs [Bol, Star isSpace,
           Grp (alts [Lit ''struct'', Lit ''union'', Lit ''enum'', Lit ''typedef'']), WordB]"

text \<open>\<^verbatim>\<open>/^\s*[{}]\s*$/\<close>\<close>
definition rxBrace :: rx where
  "rxBrace = seqs [Bol, Star isSpace, Cls (oneOf ''{}''), Star isSpace, Eol]"

text \<open>
  \<^verbatim>\<open>needsSemicolonPatterns\<close>, in the order of the array:
  \<^verbatim>\<open>/^\s*(int|char|float|double|void|long|short|unsigned|signed|const|static|extern|auto|register)\s+\w+/\<close>,
  \<^verbatim>\<open>/\w+\s*=\s*[^=]/\<close>,
  \<^verbatim>\<open>/^\s*(return|break|continue|goto)\b/\<close>,
  \<^verbatim>\<open>/\w+\s*\([^)]*\)(?!\s*\{)/\<close>,
  \<^verbatim>\<open>/\w+\s*\[[^\]]*\]\s*=/\<close>,
  \<^verbatim>\<open>/\*\w+\s*=/\<close>.
\<close>
definition needsSemicolonPatterns :: "rx list" where
  "needsSemicolonPatterns =
     [seqs [Bol, Star isSpace,
            Grp (alts (map Lit [''int'', ''char'', ''float'', ''double'', ''void'', ''long'',
               ''short'', ''unsigned'', ''signed'', ''const'', ''static'', ''extern'', ''auto'',
               ''register''])),
            Plus isSpace, Plus isWord],
      seqs [Plus isWord, Star isSpace, Lit ''='', Star isSpace, Cls (noneOf ''='')],
      seqs [Bol, Star isSpace,
            Grp (alts [Lit ''return'', Lit ''break'', Lit ''continue'', Lit ''goto'']), WordB],
      seqs [Plus isWord, Star isSpace, Lit ''('', Star (noneOf '')''), Lit '')'',
            NotAhead (seqs [Star isSpace, Lit ''{''])],
      seqs [Plus isWord, Star isSpace, Lit ''['', Star (noneOf '']''), Lit '']'', Star isSpace,
            Lit ''=''],
      seqs [Lit ''*'', Plus isWord, Star isSpace, Lit ''='']]"

definition shouldAddSemicolon :: "string \<Rightarrow> bool" where
  "shouldAddSemicolon text =
     (let trimmed = trim text in
      if trimmed = [] \<or> endsWith trimmed '';'' then False
      else if test rxStructuralEnd trimmed then False
      else if test rxDirectiveOrComment trimmed then False
      else if test rxControl trimmed then False
      else if test rxLabel trimmed then False
      else if test rxSignature trimmed then False
      else if test rxTypeDef trimmed then False
      else if test rxBrace trimmed then False
      else list_ex (\<lambda>pattern. test pattern trimmed) needsSemicolonPatterns)"

section \<open>The declaration synthesizer\<close>

text \<open>
  \<^verbatim>\<open>autoGeneratePrototypes\<close> reads the text of the document and, unless it returns early,
  inserts the prototypes it finds missing. The model returns the list of those prototype
  lines (\<^verbatim>\<open>missingPrototypes.map(f => f.prototype)\<close>), empty on each early return; the
  sentinel \<^verbatim>\<open>-1\<close> of the two line searches is \<open>None\<close>.
\<close>

text \<open>The first loop: the last line whose trimmed text starts with \<^verbatim>\<open>#include\<close>.\<close>

function findLastInclude :: "string list \<Rightarrow> nat \<Rightarrow> nat option \<Rightarrow> nat option" where
  "findLastInclude lines i lastIncludeLine =
     (if i < length lines
      then findLastInclude lines (i + 1)
             (if startsWith (trim (lines ! i)) ''#include'' then Some i else lastIncludeLine)
      else lastIncludeLine)"
  by pat_completeness auto
termination
  by (relation "measure (\<lambda>(lines, i, l). length lines - i)") auto

text \<open>\<^verbatim>\<open>/^\s*(int|void)\s+main\s*\(/\<close>\<close>
definition rxMain :: rx where
  "rxMain =
     seqs [Bol, Star isSpace, Grp (alts [Lit ''int'', Lit ''void'']), Plus isSpace, Lit ''main'',
           Star isSpace, Lit ''('']"

text \<open>The second loop: the first line from \<open>i\<close> on that matches, with its \<^verbatim>\<open>break\<close>.\<close>

function findMain :: "string list \<Rightarrow> nat \<Rightarrow> nat option" where
  "findMain lines i =
     (if i < length lines
      then (if test rxMain (lines ! i) then Some i else findMain lines (i + 1))
      else None)"
  by pat_completeness auto
termination
  by (relation "measure (\<lambda>(lines, i). length lines - i)") auto

text \<open>
  \<^verbatim>\<open>/^\s*(int|void|char|float|double|long|short|unsigned|signed)\s+([a-zA-Z_]\w*)\s*\(([^)]*)\)\s*\{/\<close>
\<close>
definition functionPattern :: rx where
  "functionPattern =
     seqs [Bol, Star isSpace, Grp (alts (map Lit typeKeywords)), Plus isSpace,
           Grp (seqs [Cls isAlphaU, Star isWord]), Star isSpace, Lit ''('',
           Grp (Star (noneOf '')'')), Lit '')'', Star isSpace, Lit ''{'']"

record func =
  name :: string
  prototype :: string

text \<open>
  The body of the third loop for one line: nothing is pushed when the line does not
  match or when the name is \<^verbatim>\<open>main\<close>.
\<close>

definition scanLine :: "string \<Rightarrow> func option" where
  "scanLine l =
     (case match functionPattern l of
        Some [returnType, functionName, ps] \<Rightarrow>
          (let parameters = trim ps in
           if functionName \<noteq> ''main''
           then Some \<lparr>name = functionName,
                      prototype = returnType @ '' '' @ functionName @ ''('' @ parameters @ '');''\<rparr>
           else None)
      | _ \<Rightarrow> None)"

function collectFunctions :: "string list \<Rightarrow> nat \<Rightarrow> func list" where
  "collectFunctions lines i =
     (if i < length lines
      then (case scanLine (lines ! i) of
              Some f \<Rightarrow> f # collectFunctions lines (i + 1)
            | None \<Rightarrow> collectFunctions lines (i + 1))
      else [])"
  by pat_completeness auto
termination
  by (relation "measure (\<lambda>(lines, i). length lines - i)") auto

text \<open>
  \<^verbatim>\<open>new RegExp(`\\b${func.name}\\s*\\([^)]*\\)\\s*;`)\<close>: the name is pasted into the
  pattern text. The pattern text means "this name, literally" when the name is made of
  word characters only; any other name would be read as pattern syntax, and the
  constructor may raise. The model makes that case an error.
\<close>

datatype error = BadPattern string

definition prototypeRx :: "string \<Rightarrow> rx" where
  "prototypeRx nm =
     seqs [WordB, Lit nm, Star isSpace, Lit ''('', Star (noneOf '')''), Lit '')'', Star isSpace,
           Lit '';'']"

definition newPrototypeRegExp :: "string \<Rightarrow> error + rx" where
  "newPrototypeRegExp nm =
     (if list_all isWord nm then Inr (prototypeRx nm) else Inl (BadPattern nm))"

text \<open>\<^verbatim>\<open>foundFunctions.filter(func => !pattern.test(prototypeArea))\<close>\<close>

fun filterMissing :: "string \<Rightarrow> func list \<Rightarrow> error + func list" where
  "filterMissing prototypeArea [] = Inr []"
| "filterMissing prototypeArea (f # fs) =
     (case newPrototypeRegExp (name f) of
        Inl e \<Rightarrow> Inl e
      | Inr pattern \<Rightarrow>
          (case filterMissing prototypeArea fs of
             Inl e \<Rightarrow> Inl e
           | Inr rest \<Rightarrow> Inr (if \<not> test pattern prototypeArea then f # rest else rest)))"

definition autoGeneratePrototypes :: "string \<Rightarrow> error + string list" where
  "autoGeneratePrototypes text =
     (let lines = split_nl text in
      case findLastInclude lines 0 None of
        None \<Rightarrow> Inr []
      | Some lastIncludeLine \<Rightarrow>
          (case findMain lines (lastIncludeLine + 1) of
             None \<Rightarrow> Inr []
           | Some mainLine \<Rightarrow>
               (let foundFunctions = collectFunctions lines (mainLine + 1) in
                if foundFunctions = [] then Inr []
                else
                  (let prototypeArea = join_nl (slice lines (lastIncludeLine + 1) mainLine) in
                   case filterMissing prototypeArea foundFunctions of
                     Inl e \<Rightarrow> Inl e
                   | Inr missingPrototypes \<Rightarrow> Inr (map prototype missingPrototypes)))))"

section \<open>What a regular expression matches\<close>

text \<open>
  The matcher is compared with a direct reading of the pattern: \<open>sem r p u v c\<close> says that
  \<open>r\<close>, with \<open>p\<close> the code unit before the cursor, matches the text \<open>u\<close> when \<open>v\<close>
  follows it, and captures \<open>c\<close>.
\<close>

definition after :: "char option \<Rightarrow> string \<Rightarrow> char option" where
  "after p u = (if u = [] then p else Some (last u))"

definition wordBehind :: "char option \<Rightarrow> bool" where
  "wordBehind p = (case p of None \<Rightarrow> False | Some c \<Rightarrow> isWord c)"

definition wordAhead :: "string \<Rightarrow> bool" where
  "wordAhead v = (case v of [] \<Rightarrow> False | c # _ \<Rightarrow> isWord c)"

fun sem :: "rx \<Rightarrow> char option \<Rightarrow> string \<Rightarrow> string \<Rightarrow> string list \<Rightarrow> bool" where
  "sem (Lit l) p u v c = (u = l \<and> c = [])"
| "sem (Cls P) p u v c = (\<exists>x. u = [x] \<and> P x \<and> c = [])"
| "sem (Star P) p u v c = ((\<forall>x\<in>set u. P x) \<and> c = [])"
| "sem (Plus P) p u v c = (u \<noteq> [] \<and> (\<forall>x\<in>set u. P x) \<and> c = [])"
| "sem (Seq a b) p u v c =
     (\<exists>u1 u2 c1 c2. u = u1 @ u2 \<and> c = c1 @ c2 \<and> sem a p u1 (u2 @ v) c1 \<and>
        sem b (after p u1) u2 v c2)"
| "sem (Alt a b) p u v c = (sem a p u v c \<or> sem b p u v c)"
| "sem Bol p u v c = (u = [] \<and> p = None \<and> c = [])"
| "sem Eol p u v c = (u = [] \<and> v = [] \<and> c = [])"
| "sem WordB p u v c = (u = [] \<and> wordBehind p \<noteq> wordAhead v \<and> c = [])"
| "sem (NotAhead r) p u v c =
     (u = [] \<and> c = [] \<and> \<not> (\<exists>u' v' c'. v = u' @ v' \<and> sem r p u' v' c'))"
| "sem (Grp r) p u v c = (\<exists>c'. c = u # c' \<and> sem r p u v c')"

section \<open>Words of the specification\<close>

text \<open>
  The claims speak of include lines, of the entry point, of the declaration area and of a
  name being declared there. These definitions say what the words mean, as decompositions
  of the text; the theorems below relate them to the patterns and loops of the source.
\<close>

definition isIncludeLine :: "string \<Rightarrow> bool" where
  "isIncludeLine l = startsWith (trim l) ''#include''"

text \<open>
  A name is declared in the area when the area holds, not directly after a word character,
  the name, optional white space, an argument list in parentheses that contains no closing
  parenthesis, optional white space and the terminator.
\<close>

definition declaredIn :: "string \<Rightarrow> string \<Rightarrow> bool" where
  "declaredIn area nm =
     (\<exists>pre ws args ws' post.
        area = pre @ nm @ ws @ ''('' @ args @ '')'' @ ws' @ '';'' @ post \<and>
        (pre = [] \<or> \<not> isWord (last pre)) \<and> (\<forall>x\<in>set ws. isSpace x) \<and>
        CHR '')'' \<notin> set args \<and> (\<forall>x\<in>set ws'. isSpace x))"

definition entryPointLine :: "string \<Rightarrow> bool" where
  "entryPointLine l =
     (\<exists>ws0 T ws1 ws2 rest.
        l = ws0 @ T @ ws1 @ ''main'' @ ws2 @ ''('' @ rest \<and> (\<forall>x\<in>set ws0. isSpace x) \<and>
        (T = ''int'' \<or> T = ''void'') \<and> ws1 \<noteq> [] \<and> (\<forall>x\<in>set ws1. isSpace x) \<and>
        (\<forall>x\<in>set ws2. isSpace x))"

definition isLastInclude :: "string list \<Rightarrow> nat \<Rightarrow> bool" where
  "isLastInclude lines li =
     (li < length lines \<and> isIncludeLine (lines ! li) \<and>
      (\<forall>l\<in>set (drop (li + 1) lines). \<not> isIncludeLine l))"

definition isEntryPoint :: "string list \<Rightarrow> nat \<Rightarrow> nat \<Rightarrow> bool" where
  "isEntryPoint lines li ml =
     (li < ml \<and> ml < length lines \<and> entryPointLine (lines ! ml) \<and>
      (\<forall>l\<in>set (slice lines (li + 1) ml). \<not> entryPointLine l))"

text \<open>
  The reading "the name, then a parenthesized argument list of any content, then the
  terminator": as \<open>declaredIn\<close>, without the condition on the argument list.
\<close>

definition declaredAnyContent :: "string \<Rightarrow> string \<Rightarrow> bool" where
  "declaredAnyContent area nm =
     (\<exists>pre ws args ws' post.
        area = pre @ nm @ ws @ ''('' @ args @ '')'' @ ws' @ '';'' @ post \<and>
        (pre = [] \<or> \<not> isWord (last pre)) \<and> (\<forall>x\<in>set ws. isSpace x) \<and>
        (\<forall>x\<in>set ws'. isSpace x))"

text \<open>Documents used as examples.\<close>

definition exampleAdd :: string where
  "exampleAdd = join_nl [''#include <stdio.h>'', ''int main() {'', ''    return add(1, 2);'', ''}'',
     ''int add(int a, int b) {'', ''    return a + b;'', ''}'']"


definition exampleTwice :: string where
  "exampleTwice = join_nl [''#include <stdio.h>'', ''int main() {'', ''}'',
     ''int b(int x) {'', ''}'', ''int b(char c) {'', ''}'']"

definition exampleFnPtr :: string where
  "exampleFnPtr = join_nl [''#include <stdio.h>'', ''void reg(void (*cb)(int));'',
     ''int main() {'', ''}'', ''void reg(int x) {'', ''}'']"

definition exampleNoInclude :: string where
  "exampleNoInclude = join_nl [''int main() {'', ''}'', ''int add(int a, int b) {'', ''}'']"

definition exampleNoMain :: string where
  "exampleNoMain = join_nl [''#include <stdio.h>'', ''int add(int a, int b) {'', ''}'',
     ''void show(int x) {'', ''}'']"

definition exampleDeclared :: string where
  "exampleDeclared = join_nl [''#include <stdio.h>'', ''int add(int a, int b);'', ''int main() {'',
     ''}'', ''int add(int a, int b) {'', ''}'', ''int sub(int a) {'', ''}'']"


text \<open>
  The shapes that need a terminator, as decompositions of the trimmed line: a declaration
  (a storage or type keyword, white space, an identifier), an assignment (a word, an equals
  sign, a code unit that is not an equals sign), a jump statement, a call (a word, an
  argument list in parentheses, no opening brace after it), an assignment to an indexed
  name and an assignment through a pointer.
\<close>

definition braceAhead :: "string \<Rightarrow> bool" where
  "braceAhead v = (\<exists>ws post. v = ws @ ''{'' @ post \<and> (\<forall>x\<in>set ws. isSpace x))"

definition declarationKeywords :: "string list" where
  "declarationKeywords =
     [''int'', ''char'', ''float'', ''double'', ''void'', ''long'', ''short'', ''unsigned'',
      ''signed'', ''const'', ''static'', ''extern'', ''auto'', ''register'']"

definition jumpKeywords :: "string list" where
  "jumpKeywords = [''return'', ''break'', ''continue'', ''goto'']"

definition declarationShape :: "string \<Rightarrow> bool" where
  "declarationShape t =
     (\<exists>ws0 K ws1 w rest. t = ws0 @ K @ ws1 @ w @ rest \<and> (\<forall>x\<in>set ws0. isSpace x) \<and>
        K \<in> set declarationKeywords \<and>
        ws1 \<noteq> [] \<and> (\<forall>x\<in>set ws1. isSpace x) \<and> w \<noteq> [] \<and> (\<forall>x\<in>set w. isWord x))"

definition assignmentShape :: "string \<Rightarrow> bool" where
  "assignmentShape t =
     (\<exists>pre w ws ws' c post. t = pre @ w @ ws @ ''='' @ ws' @ [c] @ post \<and>
        w \<noteq> [] \<and> (\<forall>x\<in>set w. isWord x) \<and> (\<forall>x\<in>set ws. isSpace x) \<and>
        (\<forall>x\<in>set ws'. isSpace x) \<and> c \<noteq> CHR ''='')"

definition jumpShape :: "string \<Rightarrow> bool" where
  "jumpShape t =
     (\<exists>ws0 K rest. t = ws0 @ K @ rest \<and> (\<forall>x\<in>set ws0. isSpace x) \<and>
        K \<in> set jumpKeywords \<and> \<not> wordAhead rest)"

definition callShape :: "string \<Rightarrow> bool" where
  "callShape t =
     (\<exists>pre w ws args post. t = pre @ w @ ws @ ''('' @ args @ '')'' @ post \<and>
        w \<noteq> [] \<and> (\<forall>x\<in>set w. isWord x) \<and> (\<forall>x\<in>set ws. isSpace x) \<and>
        CHR '')'' \<notin> set args \<and> \<not> braceAhead post)"

definition indexedAssignmentShape :: "string \<Rightarrow> bool" where
  "indexedAssignmentShape t =
     (\<exists>pre w ws idx ws' post. t = pre @ w @ ws @ ''['' @ idx @ '']'' @ ws' @ ''='' @ post \<and>
        w \<noteq> [] \<and> (\<forall>x\<in>set w. isWord x) \<and> (\<forall>x\<in>set ws. isSpace x) \<and>
        CHR '']'' \<notin> set idx \<and> (\<forall>x\<in>set ws'. isSpace x))"

definition derefAssignmentShape :: "string \<Rightarrow> bool" where
  "derefAssignmentShape t =
     (\<exists>pre w ws post. t = pre @ ''*'' @ w @ ws @ ''='' @ post \<and>
        w \<noteq> [] \<and> (\<forall>x\<in>set w. isWord x) \<and> (\<forall>x\<in>set ws. isSpace x))"

definition needsTerminatorShape :: "string \<Rightarrow> bool" where
  "needsTerminatorShape t =
     (declarationShape t \<or> assignmentShape t \<or> jumpShape t \<or> callShape t \<or>
      indexedAssignmentShape t \<or> derefAssignmentShape t)"

text \<open>
  A line of the function-definition shape: a basic type keyword, white space, an identifier,
  a parameter list in parentheses with no closing parenthesis inside, and an opening brace,
  all on the line.
\<close>

definition functionDefinitionLine :: "string \<Rightarrow> bool" where
  "functionDefinitionLine l =
     (\<exists>ws0 T ws1 n0 n ws2 ps ws3 rest.
        l = ws0 @ T @ ws1 @ (n0 # n) @ ws2 @ ''('' @ ps @ '')'' @ ws3 @ ''{'' @ rest \<and>
        (\<forall>x\<in>set ws0. isSpace x) \<and> T \<in> set typeKeywords \<and> ws1 \<noteq> [] \<and>
        (\<forall>x\<in>set ws1. isSpace x) \<and> isAlphaU n0 \<and> (\<forall>x\<in>set n. isWord x) \<and>
        (\<forall>x\<in>set ws2. isSpace x) \<and> CHR '')'' \<notin> set ps \<and> (\<forall>x\<in>set ws3. isSpace x))"

definition exampleGarbage :: string where
  "exampleGarbage = join_nl [''#include <stdio.h>'', ''int main() {'', ''    return 0;'', ''}'',
     '')))((('', ''int add(int a, int b)'', ''{'', ''x == 5 {'', ''add(int a) {'']"

section \<open>The matcher computes the meaning\<close>

lemma after_Nil [simp]: "after p [] = p" by (simp add: after_def)
lemma after_append [simp]: "after (after p u) w = after p (u @ w)" by (simp add: after_def)

lemma advance_eq: "n \<le> length s \<Longrightarrow> advance (p, s) n = (after p (take n s), drop n s)"
  by (cases n) (auto simp: advance_def after_def last_conv_nth)

lemma le_takeWhile_iff:
  "n \<le> length (takeWhile P s) \<longleftrightarrow> n \<le> length s \<and> (\<forall>x\<in>set (take n s). P x)"
proof (induction s arbitrary: n)
  case Nil then show ?case by simp
next
  case (Cons a s)
  show ?case by (cases n) (auto simp: Cons.IH)
qed

lemma split_take_iff: "(s = u @ v) \<longleftrightarrow> (length u \<le> length s \<and> u = take (length u) s \<and> v = drop (length u) s)"
  by (metis append_eq_conv_conj append_take_drop_id length_append le_add1)

lemma run_star_set:
  "set (map (\<lambda>n. (advance (p, s) n, [])) (rev [k ..< Suc (length (takeWhile P s))])) =
   {((after p u, v), []) | u v. s = u @ v \<and> k \<le> length u \<and> (\<forall>x\<in>set u. P x)}" (is "?L = ?R")
proof
  show "?L \<subseteq> ?R"
  proof
    fix x assume "x \<in> ?L"
    then obtain n where n: "k \<le> n" "n \<le> length (takeWhile P s)" and x: "x = (advance (p, s) n, [])"
      by auto
    from n have ns: "n \<le> length s" and all: "\<forall>x\<in>set (take n s). P x"
      by (simp_all add: le_takeWhile_iff)
    have "x = ((after p (take n s), drop n s), [])" using x ns by (simp add: advance_eq)
    moreover have "s = take n s @ drop n s" by simp
    moreover have "k \<le> length (take n s)" using n ns by simp
    ultimately show "x \<in> ?R" using all by blast
  qed
  show "?R \<subseteq> ?L"
  proof
    fix x assume "x \<in> ?R"
    then obtain u v where x: "x = ((after p u, v), [])" and s: "s = u @ v" and k: "k \<le> length u"
      and all: "\<forall>x\<in>set u. P x" by blast
    have "length u \<le> length (takeWhile P s)" using s all by (simp add: le_takeWhile_iff)
    moreover have "advance (p, s) (length u) = (after p u, v)" using s by (simp add: advance_eq)
    ultimately have "length u \<in> set (rev [k ..< Suc (length (takeWhile P s))])"
      and "x = (advance (p, s) (length u), [])" using x k by auto
    then show "x \<in> ?L" unfolding set_map by (rule_tac image_eqI)
  qed
qed

lemma run_sem:
  "set (run r (p, s)) = {((after p u, v), c) | u v c. s = u @ v \<and> sem r p u v c}"
proof (induction r arbitrary: p s)
  case (Lit l)
  show ?case
  proof (cases "take (length l) s = l")
    case True
    then have "length l \<le> length s" by (metis length_take min.cobounded1 min.commute)
    with True show ?thesis
      by (auto simp: advance_eq) (metis append_take_drop_id)
  next
    case False
    then show ?thesis by auto
  qed
next
  case (Cls P)
  show ?case by (cases s) (auto simp: after_def)
next
  case (Star P)
  show ?case using run_star_set[of p s 0 P] by simp
next
  case (Plus P)
  have "\<And>u::string. (1 \<le> length u) = (u \<noteq> [])" by (simp add: Suc_le_eq)
  then show ?case using run_star_set[of p s 1 P] by simp
next
  case (Seq a b)
  have "set (run (Seq a b) (p, s)) =
        (\<Union>x\<in>set (run a (p, s)). (\<lambda>y. (fst y, snd x @ snd y)) ` set (run b (fst x)))"
    by (simp add: case_prod_unfold)
  also have "\<dots> = {((after p u, v), c) | u v c. s = u @ v \<and> sem (Seq a b) p u v c}" (is "?L = ?R")
  proof
    show "?L \<subseteq> ?R"
    proof
      fix x assume "x \<in> ?L"
      then obtain x1 y where x1: "x1 \<in> set (run a (p, s))"
        and y: "y \<in> set (run b (fst x1))" and xy: "x = (fst y, snd x1 @ snd y)" by blast
      obtain st1 c1 where x1': "x1 = (st1, c1)" by (cases x1)
      obtain st2 c2 where y': "y = (st2, c2)" by (cases y)
      have 1: "(st1, c1) \<in> set (run a (p, s))" using x1 x1' by simp
      have 2: "(st2, c2) \<in> set (run b st1)" using y x1' y' by simp
      have x: "x = (st2, c1 @ c2)" using xy x1' y' by simp
      from 1 obtain u1 v1 where st1: "st1 = (after p u1, v1)" and s: "s = u1 @ v1"
        and a: "sem a p u1 v1 c1" unfolding Seq.IH(1) by blast
      from 2 obtain u2 v where st2: "st2 = (after (after p u1) u2, v)" and v1: "v1 = u2 @ v"
        and b: "sem b (after p u1) u2 v c2" unfolding st1 Seq.IH(2) by blast
      have "sem (Seq a b) p (u1 @ u2) v (c1 @ c2)" using a b v1 by auto
      moreover have "s = (u1 @ u2) @ v" using s v1 by simp
      moreover have "x = ((after p (u1 @ u2), v), c1 @ c2)" using x st2 by simp
      ultimately show "x \<in> ?R" by blast
    qed
    show "?R \<subseteq> ?L"
    proof
      fix x assume "x \<in> ?R"
      then obtain u v c where x: "x = ((after p u, v), c)" and s: "s = u @ v"
        and sq: "sem (Seq a b) p u v c" by blast
      from sq obtain u1 u2 c1 c2 where u: "u = u1 @ u2" and c: "c = c1 @ c2"
        and a: "sem a p u1 (u2 @ v) c1" and b: "sem b (after p u1) u2 v c2" by auto
      have 1: "((after p u1, u2 @ v), c1) \<in> set (run a (p, s))"
        unfolding Seq.IH(1) using a s u by auto
      have 2: "((after (after p u1) u2, v), c2) \<in> set (run b (after p u1, u2 @ v))"
        unfolding Seq.IH(2) using b by auto
      have "x = (fst ((after (after p u1) u2, v), c2), snd ((after p u1, u2 @ v), c1) @ snd ((after (after p u1) u2, v), c2))"
        using x u c by simp
      moreover have "((after (after p u1) u2, v), c2) \<in> set (run b (fst ((after p u1, u2 @ v), c1)))"
        using 2 by simp
      ultimately show "x \<in> ?L" using 1 by blast
    qed
  qed
  finally show ?case .
next
  case (Alt a b)
  then show ?case by auto
next
  case Bol
  show ?case by auto
next
  case Eol
  show ?case by auto
next
  case WordB
  show ?case by (auto simp: wordBefore_def wordAfter_def wordBehind_def wordAhead_def)
next
  case (NotAhead r)
  have e: "(run r (p, s) = []) = (\<not> (\<exists>u v c. s = u @ v \<and> sem r p u v c))"
  proof -
    have "(run r (p, s) = []) = (set (run r (p, s)) = {})" by simp
    also have "\<dots> = (\<not> (\<exists>u v c. s = u @ v \<and> sem r p u v c))"
      unfolding NotAhead.IH by blast
    finally show ?thesis .
  qed
  show ?case
  proof (cases "run r (p, s) = []")
    case True
    with e have n: "\<not> (\<exists>u v c. s = u @ v \<and> sem r p u v c)" by simp
    have "{((after p u, v), c) | u v c. s = u @ v \<and> sem (NotAhead r) p u v c} = {((p, s), [])}"
      using n by auto
    then show ?thesis using True by simp
  next
    case False
    with e have n: "\<exists>u v c. s = u @ v \<and> sem r p u v c" by simp
    have "{((after p u, v), c) | u v c. s = u @ v \<and> sem (NotAhead r) p u v c} = {}"
      using n by auto
    then show ?thesis using False by simp
  qed
next
  case (Grp r)
  show ?case by (auto simp: Grp.IH image_iff) 
qed

lemma after_Cons: "after p (c # u) = after (Some c) u"
  by (simp add: after_def)

lemma search_None_iff:
  "search r (p, s) = None \<longleftrightarrow> (\<forall>pre post. s = pre @ post \<longrightarrow> run r (after p pre, post) = [])"
proof (induction s arbitrary: p)
  case Nil
  show ?case by (simp split: list.splits)
next
  case (Cons c cs)
  have "search r (p, c # cs) = None \<longleftrightarrow> run r (p, c # cs) = [] \<and> search r (Some c, cs) = None"
    by (simp split: list.splits)
  also have "\<dots> \<longleftrightarrow> run r (p, c # cs) = [] \<and>
      (\<forall>pre post. cs = pre @ post \<longrightarrow> run r (after (Some c) pre, post) = [])"
    by (simp only: Cons.IH)
  also have "\<dots> \<longleftrightarrow> (\<forall>pre post. c # cs = pre @ post \<longrightarrow> run r (after p pre, post) = [])"
    (is "?A \<longleftrightarrow> ?B")
  proof
    assume a: ?A
    show ?B
    proof (intro allI impI)
      fix pre post assume e: "c # cs = pre @ post"
      show "run r (after p pre, post) = []"
      proof (cases pre)
        case Nil
        with e a show ?thesis by simp
      next
        case (Cons x pre')
        with e have "x = c" "cs = pre' @ post" by simp_all
        with a Cons show ?thesis by (simp add: after_Cons)
      qed
    qed
  next
    assume b: ?B
    have 1: "run r (p, c # cs) = []" using b[rule_format, of "[]" "c # cs"] by simp
    have 2: "\<forall>pre post. cs = pre @ post \<longrightarrow> run r (after (Some c) pre, post) = []"
    proof (intro allI impI)
      fix pre post assume "cs = pre @ post"
      then have "c # cs = (c # pre) @ post" by simp
      from b[rule_format, OF this] show "run r (after (Some c) pre, post) = []"
        by (simp add: after_Cons)
    qed
    from 1 2 show ?A by simp
  qed
  finally show ?case .
qed

lemma search_Some_mem:
  "search r (p, s) = Some m \<Longrightarrow> \<exists>pre post. s = pre @ post \<and> m \<in> set (run r (after p pre, post))"
proof (induction s arbitrary: p)
  case Nil
  then have "m \<in> set (run r (p, []))" by (auto split: list.splits)
  then show ?case by simp
next
  case (Cons c cs)
  show ?case
  proof (cases "run r (p, c # cs)")
    case Nil
    with Cons.prems have "search r (Some c, cs) = Some m" by simp
    from Cons.IH[OF this] obtain pre post where "cs = pre @ post"
      "m \<in> set (run r (after (Some c) pre, post))" by blast
    then have "c # cs = (c # pre) @ post \<and> m \<in> set (run r (after p (c # pre), post))"
      by (simp add: after_Cons)
    then show ?thesis by blast
  next
    case (Cons m' ms)
    with Cons.prems have "m \<in> set (run r (after p [], c # cs))" by simp
    moreover have "c # cs = [] @ c # cs" by simp
    ultimately show ?thesis by blast
  qed
qed

lemma run_empty_iff: "run r (p, s) = [] \<longleftrightarrow> \<not> (\<exists>u v c. s = u @ v \<and> sem r p u v c)"
proof -
  have "(run r (p, s) = []) = (set (run r (p, s)) = {})" by simp
  also have "\<dots> = (\<not> (\<exists>u v c. s = u @ v \<and> sem r p u v c))"
    unfolding run_sem by blast
  finally show ?thesis .
qed

lemma test_iff:
  "test r s \<longleftrightarrow> (\<exists>pre u post c. s = pre @ u @ post \<and> sem r (after None pre) u post c)"
  unfolding test_def exec_def search_None_iff run_empty_iff by blast

lemma match_sound:
  assumes "match r s = Some c"
  shows "\<exists>pre u post. s = pre @ u @ post \<and> sem r (after None pre) u post c"
proof -
  from assms obtain st where "search r (None, s) = Some (st, c)"
    by (auto simp: match_def exec_def)
  from search_Some_mem[OF this] obtain pre post where s: "s = pre @ post"
    and m: "(st, c) \<in> set (run r (after None pre, post))" by blast
  from m obtain u v where "post = u @ v" "sem r (after None pre) u v c"
    unfolding run_sem by blast
  with s show ?thesis by blast
qed

lemma match_None_iff: "match r s = None \<longleftrightarrow> \<not> test r s"
  by (cases "exec r s") (simp_all add: match_def test_def)

lemma after_None_iff [simp]: "after None pre = None \<longleftrightarrow> pre = []"
  by (simp add: after_def)


lemma sem_Seq_Bol [simp]: "sem (Seq Bol r) p u v c \<longleftrightarrow> p = None \<and> sem r p u v c"
  by auto

lemma sem_Seq_Lit [simp]:
  "sem (Seq (Lit l) r) p u v c \<longleftrightarrow> (\<exists>u2. u = l @ u2 \<and> sem r (after p l) u2 v c)"
  by auto

lemma sem_Seq_Grp [simp]:
  "sem (Seq (Grp a) r) p u v c \<longleftrightarrow>
     (\<exists>u1 u2 c1 c2. u = u1 @ u2 \<and> c = u1 # c1 @ c2 \<and> sem a p u1 (u2 @ v) c1 \<and>
        sem r (after p u1) u2 v c2)" (is "?L = ?R")
proof
  assume ?L
  then obtain u1 u2 c1 c2 c' where "u = u1 @ u2" "c = c1 @ c2" "c1 = u1 # c'"
    "sem a p u1 (u2 @ v) c'" "sem r (after p u1) u2 v c2" by auto
  then show ?R by auto
next
  assume ?R
  then obtain u1 u2 c1 c2 where h: "u = u1 @ u2" "c = u1 # c1 @ c2" "sem a p u1 (u2 @ v) c1"
    "sem r (after p u1) u2 v c2" by blast
  then have "c = (u1 # c1) @ c2" "sem (Grp a) p u1 (u2 @ v) (u1 # c1)" by simp_all
  with h show ?L unfolding sem.simps(5) by blast
qed

lemma sem_Seq_Star [simp]:
  "sem (Seq (Star P) r) p u v c \<longleftrightarrow>
     (\<exists>u1 u2. u = u1 @ u2 \<and> (\<forall>x\<in>set u1. P x) \<and> sem r (after p u1) u2 v c)"
  by auto

lemma sem_Seq_Plus [simp]:
  "sem (Seq (Plus P) r) p u v c \<longleftrightarrow>
     (\<exists>u1 u2. u = u1 @ u2 \<and> u1 \<noteq> [] \<and> (\<forall>x\<in>set u1. P x) \<and> sem r (after p u1) u2 v c)"
  by auto

lemma sem_Seq_Cls [simp]:
  "sem (Seq (Cls P) r) p u v c \<longleftrightarrow>
     (\<exists>x u2. u = x # u2 \<and> P x \<and> sem r (Some x) u2 v c)" (is "?L = ?R")
proof
  assume ?L
  then obtain u1 u2 c1 c2 where a: "u = u1 @ u2" "c = c1 @ c2" "sem (Cls P) p u1 (u2 @ v) c1"
    "sem r (after p u1) u2 v c2" unfolding sem.simps(5) by blast
  from a(3) obtain x where "u1 = [x]" "P x" "c1 = []" unfolding sem.simps(2) by blast
  with a show ?R by (simp add: after_def)
next
  assume ?R
  then obtain x u2 where b: "u = x # u2" "P x" "sem r (Some x) u2 v c" by blast
  have "sem (Cls P) p [x] (u2 @ v) []" using b(2) by simp
  moreover have "sem r (after p [x]) u2 v c" using b(3) by (simp add: after_def)
  moreover have "u = [x] @ u2" "c = [] @ c" using b(1) by simp_all
  ultimately show ?L unfolding sem.simps(5) by blast
qed

lemma sem_Seq_WordB [simp]:
  "sem (Seq WordB r) p u v c \<longleftrightarrow> wordBehind p \<noteq> wordAhead (u @ v) \<and> sem r p u v c"
  by auto

lemma sem_Star0: "sem r p u v c \<Longrightarrow> sem (Seq (Star P) r) p u v c"
  by (simp, rule exI[of _ "[]"]) simp


section \<open>The classifier\<close>

lemma endsWith_single: "endsWith s [x] \<longleftrightarrow> s \<noteq> [] \<and> last s = x"
proof (cases s rule: rev_cases)
  case Nil then show ?thesis by (simp add: endsWith_def)
next
  case (snoc ys y) then show ?thesis by (simp add: endsWith_def)
qed

lemma test_structuralEnd:
  assumes "t \<noteq> []" "last t \<in> set (''{},:'' @ [backslash])"
  shows "test rxStructuralEnd t"
proof -
  have t: "t = butlast t @ [last t] @ []" using assms(1) by simp
  have "sem rxStructuralEnd (after None (butlast t)) [last t] [] []"
    using assms(2) by (simp add: rxStructuralEnd_def oneOf_def)
  with t show ?thesis unfolding test_iff by blast
qed


lemma test_control_kw:
  assumes kw: "kw \<in> set [''if'', ''else'', ''while'', ''for'', ''do'', ''switch'']"
    and b: "\<not> wordAhead rest"
  shows "test rxControl (kw @ rest)"
proof -
  from kw have k: "kw = ''if'' \<or> kw = ''else'' \<or> kw = ''while'' \<or> kw = ''for'' \<or>
      kw = ''do'' \<or> kw = ''switch''" by simp
  have w: "wordBehind (after None kw)"
    using k by (elim disjE) (simp_all add: after_def wordBehind_def isWord_def isAlphaU_def)
  have g: "sem (Grp (alts [Lit ''if'', seqs [Lit ''else'', Plus isSpace, Lit ''if''], Lit ''else'',
                      Lit ''while'', Lit ''for'', Lit ''do'', Lit ''switch''])) None kw ([] @ rest) [kw]"
    using k by (elim disjE) simp_all
  have "sem WordB (after None kw) [] rest []" using w b by simp
  with g have "sem (Seq (Grp (alts [Lit ''if'', seqs [Lit ''else'', Plus isSpace, Lit ''if''], Lit ''else'',
                      Lit ''while'', Lit ''for'', Lit ''do'', Lit ''switch''])) WordB) None (kw @ []) rest ([kw] @ [])"
    unfolding sem.simps(5) by blast
  then have "sem rxControl (after None []) kw rest [kw]"
    unfolding rxControl_def by (simp del: sem_Seq_Star sem_Seq_Grp add: sem_Star0)
  moreover have "kw @ rest = [] @ kw @ rest" by simp
  ultimately show ?thesis unfolding test_iff by blast
qed

lemma not_should_if_test_control: "test rxControl (trim text) \<Longrightarrow> \<not> shouldAddSemicolon text"
  by (simp add: shouldAddSemicolon_def Let_def)

section \<open>The synthesizer\<close>

declare findLastInclude.simps [simp del] findMain.simps [simp del] collectFunctions.simps [simp del]

lemma all_from_split:
  "(\<forall>j. i \<le> j \<and> j < n \<longrightarrow> P j) \<longleftrightarrow> (i < n \<longrightarrow> P i) \<and> (\<forall>j. Suc i \<le> j \<and> j < n \<longrightarrow> P j)"
proof (intro iffI)
  assume "\<forall>j. i \<le> j \<and> j < n \<longrightarrow> P j"
  then show "(i < n \<longrightarrow> P i) \<and> (\<forall>j. Suc i \<le> j \<and> j < n \<longrightarrow> P j)" by (auto simp: Suc_le_eq)
next
  assume b: "(i < n \<longrightarrow> P i) \<and> (\<forall>j. Suc i \<le> j \<and> j < n \<longrightarrow> P j)"
  show "\<forall>j. i \<le> j \<and> j < n \<longrightarrow> P j"
  proof (intro allI impI)
    fix j assume j: "i \<le> j \<and> j < n"
    show "P j"
    proof (cases "j = i")
      case True with b j show ?thesis by simp
    next
      case False
      with j have "Suc i \<le> j" by simp
      with b j show ?thesis by simp
    qed
  qed
qed

lemma findLastInclude_None:
  "findLastInclude lines i acc = None \<longleftrightarrow>
     acc = None \<and> (\<forall>j. i \<le> j \<and> j < length lines \<longrightarrow> \<not> isIncludeLine (lines ! j))"
proof (induction lines i acc rule: findLastInclude.induct)
  case (1 lines i acc)
  show ?case
  proof (cases "i < length lines")
    case True
    have "findLastInclude lines i acc = findLastInclude lines (i + 1)
       (if isIncludeLine (lines ! i) then Some i else acc)"
      using True by (subst findLastInclude.simps) (simp add: isIncludeLine_def)
    also have "\<dots> = None \<longleftrightarrow> (if isIncludeLine (lines ! i) then Some i else acc) = None \<and>
       (\<forall>j. i + 1 \<le> j \<and> j < length lines \<longrightarrow> \<not> isIncludeLine (lines ! j))"
      using "1.IH"[OF True] by (simp add: isIncludeLine_def)
    also have "\<dots> \<longleftrightarrow> acc = None \<and> (\<forall>j. i \<le> j \<and> j < length lines \<longrightarrow> \<not> isIncludeLine (lines ! j))"
      using True by (subst (2) all_from_split) auto
    finally show ?thesis .
  next
    case False
    then show ?thesis by (subst findLastInclude.simps) auto
  qed
qed

lemma findLastInclude_Some:
  "findLastInclude lines i acc = Some k \<longleftrightarrow>
     (i \<le> k \<and> k < length lines \<and> isIncludeLine (lines ! k) \<and>
        (\<forall>j. k < j \<and> j < length lines \<longrightarrow> \<not> isIncludeLine (lines ! j))) \<or>
     (acc = Some k \<and> (\<forall>j. i \<le> j \<and> j < length lines \<longrightarrow> \<not> isIncludeLine (lines ! j)))"
proof (induction lines i acc rule: findLastInclude.induct)
  case (1 lines i acc)
  show ?case
  proof (cases "i < length lines")
    case True
    let ?acc = "if isIncludeLine (lines ! i) then Some i else acc"
    have "findLastInclude lines i acc = findLastInclude lines (i + 1) ?acc"
      using True by (subst findLastInclude.simps) (simp add: isIncludeLine_def)
    also have "\<dots> = Some k \<longleftrightarrow>
     (i + 1 \<le> k \<and> k < length lines \<and> isIncludeLine (lines ! k) \<and>
        (\<forall>j. k < j \<and> j < length lines \<longrightarrow> \<not> isIncludeLine (lines ! j))) \<or>
     (?acc = Some k \<and> (\<forall>j. i + 1 \<le> j \<and> j < length lines \<longrightarrow> \<not> isIncludeLine (lines ! j)))"
      using "1.IH"[OF True] by (simp add: isIncludeLine_def)
    also have "\<dots> \<longleftrightarrow>
     (i \<le> k \<and> k < length lines \<and> isIncludeLine (lines ! k) \<and>
        (\<forall>j. k < j \<and> j < length lines \<longrightarrow> \<not> isIncludeLine (lines ! j))) \<or>
     (acc = Some k \<and> (\<forall>j. i \<le> j \<and> j < length lines \<longrightarrow> \<not> isIncludeLine (lines ! j)))"
      (is "?A \<longleftrightarrow> ?B")
    proof (cases "isIncludeLine (lines ! i)")
      case inc: True
      have "\<not> (\<forall>j. i \<le> j \<and> j < length lines \<longrightarrow> \<not> isIncludeLine (lines ! j))"
        using inc True by auto
      moreover have "i + 1 \<le> k \<and> k < length lines \<and> isIncludeLine (lines ! k) \<and>
          (\<forall>j. k < j \<and> j < length lines \<longrightarrow> \<not> isIncludeLine (lines ! j)) \<Longrightarrow> i \<le> k" by simp
      moreover have "(\<forall>j. i + 1 \<le> j \<and> j < length lines \<longrightarrow> \<not> isIncludeLine (lines ! j)) \<longleftrightarrow>
          (\<forall>j. i < j \<and> j < length lines \<longrightarrow> \<not> isIncludeLine (lines ! j))" by (simp add: Suc_le_eq)
      moreover have "i \<le> k \<and> k < length lines \<and> isIncludeLine (lines ! k) \<and>
          (\<forall>j. k < j \<and> j < length lines \<longrightarrow> \<not> isIncludeLine (lines ! j)) \<Longrightarrow> k = i \<or> i + 1 \<le> k"
        by auto
      ultimately show ?thesis using inc True by auto
    next
      case ninc: False
      have *: "\<And>P. (\<forall>j. i \<le> j \<and> j < length lines \<longrightarrow> P j) \<longleftrightarrow>
          P i \<and> (\<forall>j. i + 1 \<le> j \<and> j < length lines \<longrightarrow> P j)"
        using True by (subst all_from_split) simp
      have "i + 1 \<le> k \<and> isIncludeLine (lines ! k) \<longleftrightarrow> i \<le> k \<and> isIncludeLine (lines ! k)"
        using ninc by (cases "k = i") auto
      then show ?thesis using ninc *[of "\<lambda>j. \<not> isIncludeLine (lines ! j)"] by auto
    qed
    finally show ?thesis .
  next
    case False
    then show ?thesis by (subst findLastInclude.simps) auto
  qed
qed

lemma findMain_None:
  "findMain lines i = None \<longleftrightarrow> (\<forall>j. i \<le> j \<and> j < length lines \<longrightarrow> \<not> test rxMain (lines ! j))"
proof (induction lines i rule: findMain.induct)
  case (1 lines i)
  show ?case
  proof (cases "i < length lines")
    case True
    show ?thesis
    proof (cases "test rxMain (lines ! i)")
      case t: True
      then show ?thesis using True by (subst findMain.simps) auto
    next
      case f: False
      have "findMain lines i = findMain lines (i + 1)" using True f by (subst findMain.simps) simp
      moreover have "(\<forall>j. i \<le> j \<and> j < length lines \<longrightarrow> \<not> test rxMain (lines ! j)) \<longleftrightarrow>
          (\<forall>j. i + 1 \<le> j \<and> j < length lines \<longrightarrow> \<not> test rxMain (lines ! j))"
        using f True by (subst all_from_split) simp
      ultimately show ?thesis using "1.IH"[OF True f] by simp
    qed
  next
    case False
    then show ?thesis by (subst findMain.simps) auto
  qed
qed

lemma findMain_Some:
  "findMain lines i = Some m \<longleftrightarrow>
     i \<le> m \<and> m < length lines \<and> test rxMain (lines ! m) \<and>
     (\<forall>j. i \<le> j \<and> j < m \<longrightarrow> \<not> test rxMain (lines ! j))"
proof (induction lines i rule: findMain.induct)
  case (1 lines i)
  show ?case
  proof (cases "i < length lines")
    case True
    show ?thesis
    proof (cases "test rxMain (lines ! i)")
      case t: True
      have "findMain lines i = Some i" using True t by (subst findMain.simps) simp
      moreover have "(i \<le> m \<and> m < length lines \<and> test rxMain (lines ! m) \<and>
         (\<forall>j. i \<le> j \<and> j < m \<longrightarrow> \<not> test rxMain (lines ! j))) \<longleftrightarrow> m = i"
      proof
        assume a: "i \<le> m \<and> m < length lines \<and> test rxMain (lines ! m) \<and>
         (\<forall>j. i \<le> j \<and> j < m \<longrightarrow> \<not> test rxMain (lines ! j))"
        show "m = i"
        proof (rule ccontr)
          assume "m \<noteq> i"
          with a have "i \<le> i \<and> i < m" by simp
          with a t show False by blast
        qed
      next
        assume "m = i" with True t show "i \<le> m \<and> m < length lines \<and> test rxMain (lines ! m) \<and>
         (\<forall>j. i \<le> j \<and> j < m \<longrightarrow> \<not> test rxMain (lines ! j))" by auto
      qed
      ultimately show ?thesis by auto
    next
      case f: False
      have "findMain lines i = findMain lines (i + 1)" using True f by (subst findMain.simps) simp
      moreover have "(i \<le> m \<and> m < length lines \<and> test rxMain (lines ! m) \<and>
         (\<forall>j. i \<le> j \<and> j < m \<longrightarrow> \<not> test rxMain (lines ! j))) \<longleftrightarrow>
         (i + 1 \<le> m \<and> m < length lines \<and> test rxMain (lines ! m) \<and>
         (\<forall>j. i + 1 \<le> j \<and> j < m \<longrightarrow> \<not> test rxMain (lines ! j)))"
      proof (cases "m = i")
        case True with f show ?thesis by auto
      next
        case False
        then have e: "i \<le> m \<longleftrightarrow> i + 1 \<le> m" by auto
        have "(\<forall>j. i \<le> j \<and> j < m \<longrightarrow> \<not> test rxMain (lines ! j)) \<longleftrightarrow>
          (\<forall>j. i + 1 \<le> j \<and> j < m \<longrightarrow> \<not> test rxMain (lines ! j))"
          using f by (subst all_from_split) simp
        with e show ?thesis by simp
      qed
      ultimately show ?thesis using "1.IH"[OF True f] by simp
    qed
  next
    case False
    then show ?thesis by (subst findMain.simps) auto
  qed
qed

lemma collectFunctions_eq:
  "collectFunctions lines i = List.map_filter scanLine (drop i lines)"
proof (induction lines i rule: collectFunctions.induct)
  case (1 lines i)
  show ?case
  proof (cases "i < length lines")
    case True
    then have d: "drop i lines = lines ! i # drop (i + 1) lines"
      by (simp add: Cons_nth_drop_Suc)
    show ?thesis
    proof (cases "scanLine (lines ! i)")
      case None
      then show ?thesis using True "1.IH"(1)[OF True None]
        by (subst collectFunctions.simps) (simp add: d List.map_filter_simps)
    next
      case (Some f)
      then show ?thesis using True "1.IH"(2)[OF True Some]
        by (subst collectFunctions.simps) (simp add: d List.map_filter_simps)
    qed
  next
    case False
    then show ?thesis by (subst collectFunctions.simps) (simp add: List.map_filter_simps)
  qed
qed

lemma filterMissing_eq:
  "\<forall>f\<in>set fs. list_all isWord (name f) \<Longrightarrow>
   filterMissing area fs = Inr (filter (\<lambda>f. \<not> test (prototypeRx (name f)) area) fs)"
  by (induction fs) (simp_all add: newPrototypeRegExp_def)

lemma sem_alts_Lit:
  "ws \<noteq> [] \<Longrightarrow> sem (alts (map Lit ws)) p u v c \<longleftrightarrow> u \<in> set ws \<and> c = []"
proof (induction ws)
  case Nil then show ?case by simp
next
  case (Cons x xs)
  show ?case
  proof (cases xs)
    case Nil then show ?thesis by auto
  next
    case (Cons y ys)
    then have "alts (map Lit (x # xs)) = Alt (Lit x) (alts (map Lit xs))" by simp
    then show ?thesis using Cons.IH Cons by auto
  qed
qed

lemma typeKeywords_nonempty: "typeKeywords \<noteq> []" by (simp add: typeKeywords_def)

lemma sem_functionPattern:
  "sem functionPattern p u v c \<Longrightarrow> p = None \<and>
    (\<exists>ws0 T ws1 n0 n ws2 ps ws3.
       u = ws0 @ T @ ws1 @ (n0 # n) @ ws2 @ ''('' @ ps @ '')'' @ ws3 @ ''{'' \<and>
       c = [T, n0 # n, ps] \<and> (\<forall>x\<in>set ws0. isSpace x) \<and> T \<in> set typeKeywords \<and>
       ws1 \<noteq> [] \<and> (\<forall>x\<in>set ws1. isSpace x) \<and> isAlphaU n0 \<and> (\<forall>x\<in>set n. isWord x) \<and>
       (\<forall>x\<in>set ws2. isSpace x) \<and> (\<forall>x\<in>set ps. x \<noteq> CHR '')'') \<and> (\<forall>x\<in>set ws3. isSpace x))"
  unfolding functionPattern_def
  apply (simp add: sem_alts_Lit typeKeywords_nonempty noneOf_def)
  apply (elim exE conjE)
  apply simp
  apply blast
  done

lemma semI_Bol: "sem r None u v c \<Longrightarrow> sem (Seq Bol r) None u v c"
  by simp

lemma semI_Lit: "sem r (after p l) u v c \<Longrightarrow> sem (Seq (Lit l) r) p (l @ u) v c"
  by simp

lemma semI_Star:
  "\<forall>x\<in>set w. P x \<Longrightarrow> sem r (after p w) u v c \<Longrightarrow> sem (Seq (Star P) r) p (w @ u) v c"
  unfolding sem_Seq_Star by blast

lemma semI_Plus:
  "w \<noteq> [] \<Longrightarrow> \<forall>x\<in>set w. P x \<Longrightarrow> sem r (after p w) u v c \<Longrightarrow>
     sem (Seq (Plus P) r) p (w @ u) v c"
  unfolding sem_Seq_Plus by blast

lemma semI_Grp0:
  "sem a p w (u @ v) [] \<Longrightarrow> sem r (after p w) u v c \<Longrightarrow> sem (Seq (Grp a) r) p (w @ u) v (w # c)"
  unfolding sem_Seq_Grp by (metis append_Nil)

lemma semI_WordB:
  "wordBehind p \<noteq> wordAhead (u @ v) \<Longrightarrow> sem r p u v c \<Longrightarrow> sem (Seq WordB r) p u v c"
  by simp

lemma semI_Star_end: "\<forall>x\<in>set w. P x \<Longrightarrow> sem (Star P) p w v []"
  by simp

lemma semI_Lit_end: "sem (Lit l) p l v []"
  by simp

lemma match_functionPattern:
  assumes "match functionPattern l = Some c"
  shows "\<exists>ws0 T ws1 n0 n ws2 ps ws3 rest.
       l = ws0 @ T @ ws1 @ (n0 # n) @ ws2 @ ''('' @ ps @ '')'' @ ws3 @ ''{'' @ rest \<and>
       c = [T, n0 # n, ps] \<and> (\<forall>x\<in>set ws0. isSpace x) \<and> T \<in> set typeKeywords \<and>
       ws1 \<noteq> [] \<and> (\<forall>x\<in>set ws1. isSpace x) \<and> isAlphaU n0 \<and> (\<forall>x\<in>set n. isWord x) \<and>
       (\<forall>x\<in>set ws2. isSpace x) \<and> (\<forall>x\<in>set ps. x \<noteq> CHR '')'') \<and> (\<forall>x\<in>set ws3. isSpace x)"
proof -
  from match_sound[OF assms] obtain pre u post where l: "l = pre @ u @ post"
    and s: "sem functionPattern (after None pre) u post c" by blast
  from sem_functionPattern[OF s] have pre: "pre = []" by simp
  from sem_functionPattern[OF s] have
    "\<exists>ws0 T ws1 n0 n ws2 ps ws3.
       u = ws0 @ T @ ws1 @ (n0 # n) @ ws2 @ ''('' @ ps @ '')'' @ ws3 @ ''{'' \<and>
       c = [T, n0 # n, ps] \<and> (\<forall>x\<in>set ws0. isSpace x) \<and> T \<in> set typeKeywords \<and>
       ws1 \<noteq> [] \<and> (\<forall>x\<in>set ws1. isSpace x) \<and> isAlphaU n0 \<and> (\<forall>x\<in>set n. isWord x) \<and>
       (\<forall>x\<in>set ws2. isSpace x) \<and> (\<forall>x\<in>set ps. x \<noteq> CHR '')'') \<and> (\<forall>x\<in>set ws3. isSpace x)"
    by (rule conjunct2)
  then show ?thesis
    unfolding l pre
    apply (elim exE conjE)
    apply simp
    apply blast
    done
qed

lemma sem_rxMain:
  "sem rxMain p u v c \<longleftrightarrow> p = None \<and>
    (\<exists>ws0 T ws1 ws2. u = ws0 @ T @ ws1 @ ''main'' @ ws2 @ ''('' \<and> c = [T] \<and>
       (\<forall>x\<in>set ws0. isSpace x) \<and> (T = ''int'' \<or> T = ''void'') \<and> ws1 \<noteq> [] \<and>
       (\<forall>x\<in>set ws1. isSpace x) \<and> (\<forall>x\<in>set ws2. isSpace x))" (is "?L = ?R")
proof
  assume ?L
  then show ?R
    unfolding rxMain_def
    apply simp
    apply (elim exE conjE)
    apply simp
    apply blast
    done
next
  assume ?R
  then obtain ws0 T ws1 ws2 where h: "p = None" "u = ws0 @ T @ ws1 @ ''main'' @ ws2 @ ''(''"
    "c = [T]" "\<forall>x\<in>set ws0. isSpace x" "T = ''int'' \<or> T = ''void''" "ws1 \<noteq> []"
    "\<forall>x\<in>set ws1. isSpace x" "\<forall>x\<in>set ws2. isSpace x" by blast
  have g: "\<And>q. sem (alts [Lit ''int'', Lit ''void'']) q T ((ws1 @ ''main'' @ ws2 @ ''('') @ v) []"
    using h(5) by auto
  show ?L
    unfolding rxMain_def seqs.simps h(1,2,3)
    by (intro semI_Bol semI_Star semI_Grp0 semI_Plus semI_Lit semI_Lit_end h g)
qed

lemma test_rxMain: "test rxMain l \<longleftrightarrow> entryPointLine l"
proof
  assume "test rxMain l"
  then obtain pre u post c where l: "l = pre @ u @ post" and s: "sem rxMain (after None pre) u post c"
    unfolding test_iff by blast
  from s have pre: "pre = []" unfolding sem_rxMain by simp
  from s have "\<exists>ws0 T ws1 ws2. u = ws0 @ T @ ws1 @ ''main'' @ ws2 @ ''('' \<and> c = [T] \<and>
       (\<forall>x\<in>set ws0. isSpace x) \<and> (T = ''int'' \<or> T = ''void'') \<and> ws1 \<noteq> [] \<and>
       (\<forall>x\<in>set ws1. isSpace x) \<and> (\<forall>x\<in>set ws2. isSpace x)"
    unfolding sem_rxMain by (rule conjunct2)
  then show "entryPointLine l"
    unfolding l pre entryPointLine_def
    apply (elim exE conjE)
    apply simp
    apply blast
    done
next
  assume "entryPointLine l"
  then obtain ws0 T ws1 ws2 rest where h: "l = ws0 @ T @ ws1 @ ''main'' @ ws2 @ ''('' @ rest"
    "\<forall>x\<in>set ws0. isSpace x" "T = ''int'' \<or> T = ''void''" "ws1 \<noteq> []"
    "\<forall>x\<in>set ws1. isSpace x" "\<forall>x\<in>set ws2. isSpace x"
    unfolding entryPointLine_def by blast
  have "sem rxMain (after None []) (ws0 @ T @ ws1 @ ''main'' @ ws2 @ ''('') rest [T]"
    unfolding sem_rxMain using h by auto
  moreover have "l = [] @ (ws0 @ T @ ws1 @ ''main'' @ ws2 @ ''('') @ rest" using h(1) by simp
  ultimately show "test rxMain l" unfolding test_iff by blast
qed

lemma wordAhead_append: "nm \<noteq> [] \<Longrightarrow> wordAhead (nm @ x) = isWord (hd nm)"
  by (cases nm) (simp_all add: wordAhead_def)

lemma wordBehind_after_None: "wordBehind (after None pre) \<longleftrightarrow> pre \<noteq> [] \<and> isWord (last pre)"
  by (simp add: wordBehind_def after_def)

lemma sem_prototypeRx:
  assumes nm: "nm \<noteq> []" "isWord (hd nm)"
  shows "sem (prototypeRx nm) p u v c \<longleftrightarrow> \<not> wordBehind p \<and>
    (\<exists>ws args ws'. u = nm @ ws @ ''('' @ args @ '')'' @ ws' @ '';'' \<and> c = [] \<and>
       (\<forall>x\<in>set ws. isSpace x) \<and> CHR '')'' \<notin> set args \<and> (\<forall>x\<in>set ws'. isSpace x))"
  (is "?L = ?R")
proof
  assume l: ?L
  then have w: "wordBehind p \<noteq> wordAhead (u @ v)"
    unfolding prototypeRx_def by simp
  from l have "\<exists>u2. u = nm @ u2" unfolding prototypeRx_def by simp blast
  then have "wordAhead (u @ v)" using nm by (auto simp: wordAhead_append)
  with w have 1: "\<not> wordBehind p" by simp
  from l have 2: "\<exists>ws args ws'. u = nm @ ws @ ''('' @ args @ '')'' @ ws' @ '';'' \<and> c = [] \<and>
       (\<forall>x\<in>set ws. isSpace x) \<and> CHR '')'' \<notin> set args \<and> (\<forall>x\<in>set ws'. isSpace x)"
    unfolding prototypeRx_def
    apply (simp add: noneOf_def)
    apply (elim exE conjE)
    apply simp
    apply blast
    done
  from 1 2 show ?R ..
next
  assume ?R
  then obtain ws args ws' where h: "\<not> wordBehind p"
    "u = nm @ ws @ ''('' @ args @ '')'' @ ws' @ '';''" "c = []"
    "\<forall>x\<in>set ws. isSpace x" "CHR '')'' \<notin> set args" "\<forall>x\<in>set ws'. isSpace x" by blast
  have a: "\<forall>x\<in>set args. noneOf '')'' x" using h(5) by (auto simp: noneOf_def)
  have w: "wordBehind p \<noteq> wordAhead ((nm @ ws @ ''('' @ args @ '')'' @ ws' @ '';'') @ v)"
    using h(1) nm by (simp add: wordAhead_append)
  show ?L
    unfolding prototypeRx_def seqs.simps h(2,3)
    by (intro semI_WordB semI_Lit semI_Star semI_Lit_end h a w)
qed

lemma test_prototypeRx:
  assumes nm: "nm \<noteq> []" "isWord (hd nm)"
  shows "test (prototypeRx nm) area \<longleftrightarrow> declaredIn area nm"
proof
  assume "test (prototypeRx nm) area"
  then obtain pre u post c where l: "area = pre @ u @ post"
    and s: "sem (prototypeRx nm) (after None pre) u post c"
    unfolding test_iff by blast
  from s have b: "pre = [] \<or> \<not> isWord (last pre)"
    unfolding sem_prototypeRx[OF nm] wordBehind_after_None by blast
  from s have "\<exists>ws args ws'. u = nm @ ws @ ''('' @ args @ '')'' @ ws' @ '';'' \<and> c = [] \<and>
       (\<forall>x\<in>set ws. isSpace x) \<and> CHR '')'' \<notin> set args \<and> (\<forall>x\<in>set ws'. isSpace x)"
    unfolding sem_prototypeRx[OF nm] by (rule conjunct2)
  then obtain ws args ws' where u: "u = nm @ ws @ ''('' @ args @ '')'' @ ws' @ '';''"
    and r: "\<forall>x\<in>set ws. isSpace x" "CHR '')'' \<notin> set args" "\<forall>x\<in>set ws'. isSpace x" by blast
  have "area = pre @ nm @ ws @ ''('' @ args @ '')'' @ ws' @ '';'' @ post" using l u by simp
  with b r show "declaredIn area nm" unfolding declaredIn_def by blast
next
  assume "declaredIn area nm"
  then obtain pre ws args ws' post where
    a: "area = pre @ nm @ ws @ ''('' @ args @ '')'' @ ws' @ '';'' @ post"
    and b: "pre = [] \<or> \<not> isWord (last pre)"
    and r: "\<forall>x\<in>set ws. isSpace x" "CHR '')'' \<notin> set args" "\<forall>x\<in>set ws'. isSpace x"
    unfolding declaredIn_def by blast
  have "sem (prototypeRx nm) (after None pre) (nm @ ws @ ''('' @ args @ '')'' @ ws' @ '';'') post []"
    unfolding sem_prototypeRx[OF nm] wordBehind_after_None using b r by blast
  moreover have "area = pre @ (nm @ ws @ ''('' @ args @ '')'' @ ws' @ '';'') @ post"
    using a by simp
  ultimately show "test (prototypeRx nm) area" unfolding test_iff by blast
qed

lemma scanLine_Some:
  "scanLine l = Some f \<longleftrightarrow>
     (\<exists>T n ps. match functionPattern l = Some [T, n, ps] \<and> n \<noteq> ''main'' \<and>
        f = \<lparr>name = n, prototype = T @ '' '' @ n @ ''('' @ trim ps @ '');''\<rparr>)"
  by (auto simp: scanLine_def Let_def split: option.splits list.splits)

lemma isAlphaU_isWord: "isAlphaU x \<Longrightarrow> isWord x"
  by (simp add: isWord_def)

lemma scanLine_name:
  assumes "scanLine l = Some f"
  shows "name f \<noteq> [] \<and> isAlphaU (hd (name f)) \<and> list_all isWord (name f) \<and> name f \<noteq> ''main''"
proof -
  from assms obtain T n ps where m: "match functionPattern l = Some [T, n, ps]"
    and n: "n \<noteq> ''main''" and f: "name f = n" unfolding scanLine_Some by auto
  from match_functionPattern[OF m] obtain n0 n' where "n = n0 # n'" "isAlphaU n0"
    "\<forall>x\<in>set n'. isWord x" by auto
  then show ?thesis using n f by (simp add: isAlphaU_isWord list_all_iff)
qed

lemma filterMissing_found:
  assumes "\<forall>f\<in>set fs. \<exists>l. scanLine l = Some f"
  shows "filterMissing area fs = Inr (filter (\<lambda>f. \<not> declaredIn area (name f)) fs)"
proof -
  have w: "\<forall>f\<in>set fs. list_all isWord (name f)" using assms scanLine_name by blast
  have "filter (\<lambda>f. \<not> test (prototypeRx (name f)) area) fs =
        filter (\<lambda>f. \<not> declaredIn area (name f)) fs"
  proof (rule filter_cong[OF refl])
    fix f assume "f \<in> set fs"
    with assms obtain l where "scanLine l = Some f" by blast
    from scanLine_name[OF this] have "name f \<noteq> []" "isWord (hd (name f))"
      by (simp_all add: isAlphaU_isWord)
    then show "(\<not> test (prototypeRx (name f)) area) = (\<not> declaredIn area (name f))"
      by (simp add: test_prototypeRx)
  qed
  with filterMissing_eq[OF w] show ?thesis by simp
qed

lemma map_filter_scanLine_found:
  "\<forall>f\<in>set (List.map_filter scanLine ls). \<exists>l. scanLine l = Some f"
  by (auto simp: List.map_filter_def)

lemma autoGen_structure:
  assumes li: "findLastInclude (split_nl text) 0 None = Some li"
    and ml: "findMain (split_nl text) (li + 1) = Some ml"
  shows "autoGeneratePrototypes text =
     Inr (map prototype
       (filter (\<lambda>f. \<not> declaredIn (join_nl (slice (split_nl text) (li + 1) ml)) (name f))
          (List.map_filter scanLine (drop (ml + 1) (split_nl text)))))"
proof -
  let ?found = "List.map_filter scanLine (drop (ml + 1) (split_nl text))"
  let ?area = "join_nl (slice (split_nl text) (li + 1) ml)"
  have fm: "filterMissing ?area ?found = Inr (filter (\<lambda>f. \<not> declaredIn ?area (name f)) ?found)"
    by (rule filterMissing_found[OF map_filter_scanLine_found])
  show ?thesis
  proof (cases "?found = []")
    case True
    then show ?thesis using li ml
      by (simp add: autoGeneratePrototypes_def Let_def collectFunctions_eq)
  next
    case False
    then show ?thesis using li ml fm
      by (simp add: autoGeneratePrototypes_def Let_def collectFunctions_eq)
  qed
qed

lemma autoGen_no_include:
  "findLastInclude (split_nl text) 0 None = None \<Longrightarrow> autoGeneratePrototypes text = Inr []"
  by (simp add: autoGeneratePrototypes_def Let_def)

lemma autoGen_no_main:
  "findLastInclude (split_nl text) 0 None = Some li \<Longrightarrow>
   findMain (split_nl text) (li + 1) = None \<Longrightarrow> autoGeneratePrototypes text = Inr []"
  by (simp add: autoGeneratePrototypes_def Let_def)

lemma autoGen_total: "\<exists>ps. autoGeneratePrototypes text = Inr ps"
proof (cases "findLastInclude (split_nl text) 0 None")
  case None
  then show ?thesis by (simp add: autoGen_no_include)
next
  case (Some li)
  show ?thesis
  proof (cases "findMain (split_nl text) (li + 1)")
    case None
    with Some show ?thesis by (simp add: autoGen_no_main)
  next
    case (Some ml)
    with \<open>findLastInclude (split_nl text) 0 None = Some li\<close> show ?thesis
      by (simp add: autoGen_structure)
  qed
qed

lemma set_drop_nth: "set (drop k xs) = {xs ! j | j. k \<le> j \<and> j < length xs}"
proof -
  have "set (drop k xs) = {drop k xs ! i | i. i < length (drop k xs)}"
    by (simp add: set_conv_nth)
  also have "\<dots> = {xs ! j | j. k \<le> j \<and> j < length xs}" (is "?A = ?B")
  proof
    show "?A \<subseteq> ?B"
    proof
      fix x assume "x \<in> ?A"
      then obtain i where "x = drop k xs ! i" "i < length (drop k xs)" by blast
      then have "x = xs ! (k + i)" "k \<le> k + i" "k + i < length xs" by auto
      then show "x \<in> ?B" by blast
    qed
    show "?B \<subseteq> ?A"
    proof
      fix x assume "x \<in> ?B"
      then obtain j where "x = xs ! j" "k \<le> j" "j < length xs" by blast
      then have "x = drop k xs ! (j - k)" "j - k < length (drop k xs)" by auto
      then show "x \<in> ?A" by blast
    qed
  qed
  finally show ?thesis .
qed

lemma ball_drop_iff:
  "(\<forall>l\<in>set (drop k xs). P l) \<longleftrightarrow> (\<forall>j. k \<le> j \<and> j < length xs \<longrightarrow> P (xs ! j))"
  unfolding set_drop_nth by blast

lemma ball_slice_iff:
  assumes "b \<le> length xs"
  shows "(\<forall>l\<in>set (slice xs a b). P l) \<longleftrightarrow> (\<forall>j. a \<le> j \<and> j < b \<longrightarrow> P (xs ! j))"
proof -
  have "slice xs a b = drop a (take b xs)"
    unfolding slice_def by (simp add: drop_take)
  then have "(\<forall>l\<in>set (slice xs a b). P l) \<longleftrightarrow>
      (\<forall>j. a \<le> j \<and> j < length (take b xs) \<longrightarrow> P (take b xs ! j))"
    by (simp add: ball_drop_iff)
  also have "\<dots> \<longleftrightarrow> (\<forall>j. a \<le> j \<and> j < b \<longrightarrow> P (xs ! j))"
    using assms by auto
  finally show ?thesis .
qed

lemma isLastInclude_iff: "isLastInclude lines li \<longleftrightarrow> findLastInclude lines 0 None = Some li"
proof -
  have "(\<forall>l\<in>set (drop (li + 1) lines). \<not> isIncludeLine l) \<longleftrightarrow>
        (\<forall>j. li < j \<and> j < length lines \<longrightarrow> \<not> isIncludeLine (lines ! j))"
    unfolding ball_drop_iff by (simp add: Suc_le_eq)
  then show ?thesis unfolding isLastInclude_def findLastInclude_Some by auto
qed

lemma no_include_iff:
  "(\<forall>l\<in>set lines. \<not> isIncludeLine l) \<longleftrightarrow> findLastInclude lines 0 None = None"
  unfolding findLastInclude_None by (simp add: all_set_conv_all_nth)

lemma isEntryPoint_iff: "isEntryPoint lines li ml \<longleftrightarrow> findMain lines (li + 1) = Some ml"
proof (cases "ml < length lines")
  case True
  then have "(\<forall>l\<in>set (slice lines (li + 1) ml). \<not> entryPointLine l) \<longleftrightarrow>
      (\<forall>j. li + 1 \<le> j \<and> j < ml \<longrightarrow> \<not> test rxMain (lines ! j))"
    by (simp add: ball_slice_iff test_rxMain)
  then show ?thesis unfolding isEntryPoint_def findMain_Some test_rxMain
    by (auto simp: Suc_le_eq)
next
  case False
  then show ?thesis unfolding isEntryPoint_def findMain_Some by auto
qed

lemma no_entryPoint_iff:
  "(\<forall>l\<in>set (drop (li + 1) lines). \<not> entryPointLine l) \<longleftrightarrow> findMain lines (li + 1) = None"
  unfolding findMain_None ball_drop_iff test_rxMain by simp

text \<open>A text is cut in only one way into a run of some class and a rest that starts outside it.\<close>

lemma run_prefix_unique:
  assumes "a @ x # r = a' @ x' # r'" "\<forall>c\<in>set a. Q c" "\<forall>c\<in>set a'. Q c" "\<not> Q x" "\<not> Q x'"
  shows "a = a' \<and> x = x' \<and> r = r'"
proof -
  have "takeWhile Q (a @ x # r) = a" using assms(2,4) by (simp add: takeWhile_append2)
  moreover have "takeWhile Q (a' @ x' # r') = a'" using assms(3,5) by (simp add: takeWhile_append2)
  ultimately have "a = a'" using assms(1) by simp
  with assms(1) show ?thesis by simp
qed

lemma keyword_props: "T \<in> set typeKeywords \<Longrightarrow> T \<noteq> [] \<and> (\<forall>x\<in>set T. isAlphaU x)"
  unfolding typeKeywords_def isAlphaU_def by (elim rev_mp) simp

lemma space_not_word: "isSpace x \<Longrightarrow> \<not> isWord x"
  unfolding isSpace_def isWord_def isAlphaU_def by (elim rev_mp) simp

lemma paren_not_word: "\<not> isWord CHR ''(''"
  unfolding isWord_def isAlphaU_def by simp

lemma blank_is_space: "isSpace CHR '' ''"
  unfolding isSpace_def by simp

lemma proto_not_entry:
  assumes T: "T \<in> set typeKeywords" and n: "n \<noteq> []" "\<forall>x\<in>set n. isWord x" "n \<noteq> ''main''"
  shows "\<not> entryPointLine (T @ '' '' @ n @ ''('' @ r)"
proof
  assume "entryPointLine (T @ '' '' @ n @ ''('' @ r)"
  then obtain ws0 T' ws1 ws2 rest where
    e: "T @ '' '' @ n @ ''('' @ r = ws0 @ T' @ ws1 @ ''main'' @ ws2 @ ''('' @ rest"
    and ws0: "\<forall>x\<in>set ws0. isSpace x" and T': "T' = ''int'' \<or> T' = ''void''"
    and ws1: "ws1 \<noteq> []" "\<forall>x\<in>set ws1. isSpace x" and ws2: "\<forall>x\<in>set ws2. isSpace x"
    unfolding entryPointLine_def by blast
  from keyword_props[OF T] have T0: "T \<noteq> []" "\<forall>x\<in>set T. isWord x"
    by (simp_all add: isAlphaU_isWord)
  have w0: "ws0 = []"
  proof (rule ccontr)
    assume "ws0 \<noteq> []"
    then obtain a ws0' where a: "ws0 = a # ws0'" by (cases ws0) auto
    from T0(1) obtain t T1 where t: "T = t # T1" by (cases T) auto
    from e a t have "t = a" by simp
    moreover have "isWord t" using T0(2) t by simp
    moreover have "isSpace a" using ws0 a by simp
    ultimately show False using space_not_word by blast
  qed
  from ws1 obtain s ws1' where s: "ws1 = s # ws1'" "isSpace s" "\<forall>x\<in>set ws1'. isSpace x"
    by (cases ws1) auto
  have T'w: "\<forall>x\<in>set T'. isWord x" using T' by (auto simp: isWord_def isAlphaU_def)
  have e1: "T @ CHR '' '' # (n @ ''('' @ r) = T' @ s # (ws1' @ ''main'' @ ws2 @ ''('' @ rest)"
    using e w0 s(1) by simp
  have nb: "\<not> isWord CHR '' ''" using blank_is_space space_not_word by blast
  have ns: "\<not> isWord s" using s(2) space_not_word by blast
  from run_prefix_unique[OF e1 T0(2) T'w nb ns]
  have e2: "n @ ''('' @ r = ws1' @ ''main'' @ ws2 @ ''('' @ rest" by simp
  from n(1) obtain n0 n1 where n0: "n = n0 # n1" by (cases n) auto
  have w1: "ws1' = []"
  proof (rule ccontr)
    assume "ws1' \<noteq> []"
    then obtain a w where a: "ws1' = a # w" by (cases ws1') auto
    from e2 a n0 have "n0 = a" by simp
    moreover have "isWord n0" using n(2) n0 by simp
    moreover have "isSpace a" using s(3) a by simp
    ultimately show False using space_not_word by blast
  qed
  obtain c rest' where c: "ws2 @ ''('' @ rest = c # rest'" "\<not> isWord c"
  proof (cases ws2)
    case Nil
    then have "ws2 @ ''('' @ rest = CHR ''('' # rest" by simp
    then show ?thesis using that paren_not_word by blast
  next
    case (Cons a w)
    then have "ws2 @ ''('' @ rest = a # (w @ ''('' @ rest)" by simp
    moreover have "\<not> isWord a" using ws2 Cons space_not_word by simp
    ultimately show ?thesis using that by blast
  qed
  have e3: "n @ CHR ''('' # r = ''main'' @ c # rest'" using e2 w1 c(1) by simp
  have mw: "\<forall>x\<in>set ''main''. isWord x" by (simp add: isWord_def isAlphaU_def)
  from run_prefix_unique[OF e3 n(2) mw paren_not_word c(2)] have "n = ''main''" by simp
  with n(3) show False by simp
qed

lemma trim_id:
  assumes "s \<noteq> []" "\<not> isSpace (hd s)" "\<not> isSpace (last s)"
  shows "trim s = s"
proof -
  from assms(1,2) have 1: "dropWhile isSpace s = s" by (cases s) auto
  have "rev s \<noteq> []" "\<not> isSpace (hd (rev s))" using assms(1,3) by (simp_all add: hd_rev)
  then have 2: "dropWhile isSpace (rev s) = rev s" by (cases "rev s") auto
  show ?thesis unfolding trim_def 1 2 by simp
qed

lemma proto_not_include:
  assumes T: "T \<in> set typeKeywords"
  shows "\<not> isIncludeLine (T @ '' '' @ n @ ''('' @ r @ '');'')"
proof -
  let ?p = "T @ '' '' @ n @ ''('' @ r @ '');''"
  from keyword_props[OF T] obtain t T1 where t: "T = t # T1" "isAlphaU t" by (cases T) auto
  have h: "hd ?p = t" using t by simp
  have ns: "\<not> isSpace t" using t(2) isAlphaU_isWord space_not_word by blast
  have "?p = (T @ '' '' @ n @ ''('' @ r @ '')'') @ [CHR '';'']" by simp
  then have l: "last ?p = CHR '';''" by (metis last_snoc)
  have "\<not> isSpace CHR '';''" by (simp add: isSpace_def)
  with h ns l have "trim ?p = ?p" by (intro trim_id) (simp_all add: t)
  moreover have "t \<noteq> CHR ''#''" using t(2) by (auto simp: isAlphaU_def)
  ultimately show ?thesis using t(1) by (simp add: isIncludeLine_def startsWith_def)
qed

lemma scanLine_shape:
  assumes "scanLine l = Some f"
  obtains T ps where "T \<in> set typeKeywords" "match functionPattern l = Some [T, name f, ps]"
    "prototype f = T @ '' '' @ name f @ ''('' @ trim ps @ '');''"
    "CHR '')'' \<notin> set ps" "set ps \<subseteq> set l"
proof -
  from assms obtain T n ps where m: "match functionPattern l = Some [T, n, ps]"
    and f: "f = \<lparr>name = n, prototype = T @ '' '' @ n @ ''('' @ trim ps @ '');''\<rparr>"
    unfolding scanLine_Some by blast
  from match_functionPattern[OF m] have "T \<in> set typeKeywords" "CHR '')'' \<notin> set ps"
    "set ps \<subseteq> set l" by auto
  with m f that show thesis by simp
qed


lemma found_as_lines:
  "map prototype (filter P (List.map_filter g xs)) =
   map (\<lambda>l. prototype (the (g l))) (filter (\<lambda>l. case g l of None \<Rightarrow> False | Some f \<Rightarrow> P f) xs)"
  by (induction xs) (auto simp: List.map_filter_simps split: option.splits)

lemma autoGen_lines:
  assumes "isLastInclude (split_nl doc) li" "isEntryPoint (split_nl doc) li ml"
  shows "autoGeneratePrototypes doc =
     Inr (map (\<lambda>l. prototype (the (scanLine l)))
       (filter (\<lambda>l. case scanLine l of None \<Rightarrow> False
                  | Some f \<Rightarrow> \<not> declaredIn (join_nl (slice (split_nl doc) (li + 1) ml)) (name f))
          (drop (ml + 1) (split_nl doc))))"
  using assms autoGen_structure[of doc li ml]
  unfolding isLastInclude_iff isEntryPoint_iff found_as_lines by simp

lemma autoGen_cases:
  obtains (noInclude) "\<forall>l\<in>set (split_nl doc). \<not> isIncludeLine l"
      "autoGeneratePrototypes doc = Inr []"
  | (noMain) li where "isLastInclude (split_nl doc) li"
      "\<forall>l\<in>set (drop (li + 1) (split_nl doc)). \<not> entryPointLine l"
      "autoGeneratePrototypes doc = Inr []"
  | (anchored) li ml where "isLastInclude (split_nl doc) li" "isEntryPoint (split_nl doc) li ml"
proof (cases "findLastInclude (split_nl doc) 0 None")
  case None
  then show ?thesis using noInclude autoGen_no_include no_include_iff by blast
next
  case (Some li)
  show ?thesis
  proof (cases "findMain (split_nl doc) (li + 1)")
    case None
    with Some show ?thesis using noMain[of li] autoGen_no_main[of doc li]
      unfolding isLastInclude_iff no_entryPoint_iff by blast
  next
    case (Some ml)
    with \<open>findLastInclude (split_nl doc) 0 None = Some li\<close> show ?thesis
      using anchored[of li ml] unfolding isLastInclude_iff isEntryPoint_iff by blast
  qed
qed

lemma proto_name_unique:
  assumes f: "scanLine l = Some f" and g: "scanLine l' = Some g"
    and e: "prototype f = prototype g"
  shows "name f = name g"
proof -
  from scanLine_shape[OF f] obtain T ps where T: "T \<in> set typeKeywords"
    and pf: "prototype f = T @ '' '' @ name f @ ''('' @ trim ps @ '');''" by blast
  from scanLine_shape[OF g] obtain T' ps' where T': "T' \<in> set typeKeywords"
    and pg: "prototype g = T' @ '' '' @ name g @ ''('' @ trim ps' @ '');''" by blast
  have Tw: "\<forall>x\<in>set T. isWord x" "\<forall>x\<in>set T'. isWord x"
    using keyword_props[OF T] keyword_props[OF T'] by (simp_all add: isAlphaU_isWord)
  have nb: "\<not> isWord CHR '' ''" using blank_is_space space_not_word by blast
  have e1: "T @ CHR '' '' # (name f @ ''('' @ trim ps @ '');'') =
            T' @ CHR '' '' # (name g @ ''('' @ trim ps' @ '');'')"
    using e pf pg by simp
  from run_prefix_unique[OF e1 Tw nb nb]
  have e2: "name f @ CHR ''('' # (trim ps @ '');'') = name g @ CHR ''('' # (trim ps' @ '');'')"
    by simp
  have nw: "\<forall>x\<in>set (name f). isWord x" "\<forall>x\<in>set (name g). isWord x"
    using scanLine_name[OF f] scanLine_name[OF g] by (simp_all add: list_all_iff)
  from run_prefix_unique[OF e2 nw paren_not_word paren_not_word] show ?thesis by simp
qed

lemma in_found:
  assumes "ml < i" "i < length lines" "scanLine (lines ! i) = Some f"
  shows "lines ! i \<in> set (drop (ml + 1) lines)"
  unfolding set_drop_nth using assms by auto




section \<open>The shapes that need a terminator\<close>

lemma semI_Plus_end: "w \<noteq> [] \<Longrightarrow> \<forall>x\<in>set w. P x \<Longrightarrow> sem (Plus P) p w v []"
  by simp

lemma semI_Cls_end: "P x \<Longrightarrow> sem (Cls P) p [x] v []"
  by simp

lemma sem_notAhead_brace:
  "sem (NotAhead (Seq (Star isSpace) (Lit ''{''))) p u v c \<longleftrightarrow> u = [] \<and> c = [] \<and> \<not> braceAhead v"
proof -
  have "(\<exists>u' v' c'. v = u' @ v' \<and> sem (Seq (Star isSpace) (Lit ''{'')) p u' v' c') \<longleftrightarrow> braceAhead v"
    (is "?A \<longleftrightarrow> _")
  proof
    assume ?A
    then obtain u' v' c' where v: "v = u' @ v'" and s: "sem (Seq (Star isSpace) (Lit ''{'')) p u' v' c'"
      by blast
    from s obtain ws where "u' = ws @ ''{''" "\<forall>x\<in>set ws. isSpace x" by auto
    with v have "v = ws @ ''{'' @ v'" by simp
    with \<open>\<forall>x\<in>set ws. isSpace x\<close> show "braceAhead v" unfolding braceAhead_def by blast
  next
    assume "braceAhead v"
    then obtain ws post where v: "v = ws @ ''{'' @ post" and w: "\<forall>x\<in>set ws. isSpace x"
      unfolding braceAhead_def by blast
    have "sem (Seq (Star isSpace) (Lit ''{'')) p (ws @ ''{'') post []"
      by (intro semI_Star semI_Lit_end w)
    moreover have "v = (ws @ ''{'') @ post" using v by simp
    ultimately show ?A by blast
  qed
  then show ?thesis by simp
qed

lemma pattern0:
  "needsSemicolonPatterns ! 0 =
     seqs [Bol, Star isSpace, Grp (alts (map Lit declarationKeywords)), Plus isSpace, Plus isWord]"
  by (simp add: needsSemicolonPatterns_def declarationKeywords_def)

lemma declarationKeywords_nonempty: "declarationKeywords \<noteq> []"
  by (simp add: declarationKeywords_def)

lemma sem_pattern0:
  "sem (seqs [Bol, Star isSpace, Grp (alts (map Lit declarationKeywords)), Plus isSpace,
          Plus isWord]) p u v c \<Longrightarrow>
   p = None \<and> (\<exists>ws0 K ws1 w. u = ws0 @ K @ ws1 @ w \<and> (\<forall>x\<in>set ws0. isSpace x) \<and>
        K \<in> set declarationKeywords \<and>
        ws1 \<noteq> [] \<and> (\<forall>x\<in>set ws1. isSpace x) \<and> w \<noteq> [] \<and> (\<forall>x\<in>set w. isWord x))"
  apply (simp add: sem_alts_Lit declarationKeywords_nonempty)
  apply (elim exE conjE)
  apply simp
  apply blast
  done

lemma test_declaration: "test (needsSemicolonPatterns ! 0) t \<longleftrightarrow> declarationShape t"
proof
  assume "test (needsSemicolonPatterns ! 0) t"
  then obtain pre u post c where t: "t = pre @ u @ post"
    and s: "sem (seqs [Bol, Star isSpace, Grp (alts (map Lit declarationKeywords)), Plus isSpace,
          Plus isWord]) (after None pre) u post c"
    unfolding test_iff pattern0 by blast
  from sem_pattern0[OF s] have pre: "pre = []" by simp
  from sem_pattern0[OF s] have "\<exists>ws0 K ws1 w. u = ws0 @ K @ ws1 @ w \<and> (\<forall>x\<in>set ws0. isSpace x) \<and>
        K \<in> set declarationKeywords \<and>
        ws1 \<noteq> [] \<and> (\<forall>x\<in>set ws1. isSpace x) \<and> w \<noteq> [] \<and> (\<forall>x\<in>set w. isWord x)"
    by (rule conjunct2)
  then show "declarationShape t"
    unfolding t pre declarationShape_def
    apply (elim exE conjE)
    apply simp
    apply blast
    done
next
  assume "declarationShape t"
  then obtain ws0 K ws1 w rest where h: "t = ws0 @ K @ ws1 @ w @ rest" "\<forall>x\<in>set ws0. isSpace x"
    "K \<in> set declarationKeywords"
    "ws1 \<noteq> []" "\<forall>x\<in>set ws1. isSpace x" "w \<noteq> []" "\<forall>x\<in>set w. isWord x"
    unfolding declarationShape_def by blast
  have g: "\<And>q v. sem (alts (map Lit declarationKeywords)) q K v []"
    using h(3) by (simp add: sem_alts_Lit declarationKeywords_nonempty)
  have "sem (needsSemicolonPatterns ! 0) None (ws0 @ K @ ws1 @ w) rest [K]"
    unfolding pattern0 seqs.simps
    by (intro semI_Bol semI_Star semI_Grp0 semI_Plus semI_Plus_end h g)
  then have "sem (needsSemicolonPatterns ! 0) (after None []) (ws0 @ K @ ws1 @ w) rest [K]" by simp
  moreover have "t = [] @ (ws0 @ K @ ws1 @ w) @ rest" using h(1) by simp
  ultimately show "test (needsSemicolonPatterns ! 0) t" unfolding test_iff by blast
qed

lemma pattern1:
  "needsSemicolonPatterns ! 1 =
     seqs [Plus isWord, Star isSpace, Lit ''='', Star isSpace, Cls (noneOf ''='')]"
  by (simp add: needsSemicolonPatterns_def)

lemma sem_pattern1:
  "sem (seqs [Plus isWord, Star isSpace, Lit ''='', Star isSpace, Cls (noneOf ''='')]) p u v c \<Longrightarrow>
   \<exists>w ws ws' x. u = w @ ws @ ''='' @ ws' @ [x] \<and> w \<noteq> [] \<and> (\<forall>x\<in>set w. isWord x) \<and>
      (\<forall>x\<in>set ws. isSpace x) \<and> (\<forall>x\<in>set ws'. isSpace x) \<and> x \<noteq> CHR ''=''"
  apply (simp add: noneOf_def)
  apply (elim exE conjE)
  apply simp
  apply blast
  done

lemma test_assignment: "test (needsSemicolonPatterns ! 1) t \<longleftrightarrow> assignmentShape t"
proof
  assume "test (needsSemicolonPatterns ! 1) t"
  then obtain pre u post c where t: "t = pre @ u @ post"
    and s: "sem (seqs [Plus isWord, Star isSpace, Lit ''='', Star isSpace, Cls (noneOf ''='')])
       (after None pre) u post c"
    unfolding test_iff pattern1 by blast
  from sem_pattern1[OF s] show "assignmentShape t"
    unfolding t assignmentShape_def
    apply (elim exE conjE)
    apply simp
    apply blast
    done
next
  assume "assignmentShape t"
  then obtain pre w ws ws' x post where h: "t = pre @ w @ ws @ ''='' @ ws' @ [x] @ post"
    "w \<noteq> []" "\<forall>x\<in>set w. isWord x" "\<forall>x\<in>set ws. isSpace x" "\<forall>x\<in>set ws'. isSpace x"
    and x: "x \<noteq> CHR ''=''"
    unfolding assignmentShape_def by blast
  have n: "noneOf ''='' x" using x by (simp add: noneOf_def)
  have "sem (needsSemicolonPatterns ! 1) (after None pre) (w @ ws @ ''='' @ ws' @ [x]) post []"
    unfolding pattern1 seqs.simps
    by (intro semI_Plus semI_Star semI_Lit semI_Cls_end h n)
  moreover have "t = pre @ (w @ ws @ ''='' @ ws' @ [x]) @ post" using h(1) by simp
  ultimately show "test (needsSemicolonPatterns ! 1) t" unfolding test_iff by blast
qed

lemma pattern2:
  "needsSemicolonPatterns ! 2 =
     seqs [Bol, Star isSpace, Grp (alts (map Lit jumpKeywords)), WordB]"
  by (simp add: needsSemicolonPatterns_def jumpKeywords_def)

lemma jumpKeywords_nonempty: "jumpKeywords \<noteq> []"
  by (simp add: jumpKeywords_def)

lemma jumpKeyword_word: "K \<in> set jumpKeywords \<Longrightarrow> wordBehind (after p (ws0 @ K))"
  unfolding jumpKeywords_def
  by (auto simp: after_def wordBehind_def isWord_def isAlphaU_def)

lemma sem_pattern2:
  "sem (seqs [Bol, Star isSpace, Grp (alts (map Lit jumpKeywords)), WordB]) p u v c \<longleftrightarrow>
   p = None \<and> (\<exists>ws0 K. u = ws0 @ K \<and> c = [K] \<and> (\<forall>x\<in>set ws0. isSpace x) \<and>
      K \<in> set jumpKeywords \<and> \<not> wordAhead v)" (is "?L = ?R")
proof
  assume l: ?L
  then have p: "p = None" by simp
  from l obtain ws0 u2 where u: "u = ws0 @ u2" and w: "\<forall>x\<in>set ws0. isSpace x"
    and s2: "sem (Seq (Grp (alts (map Lit jumpKeywords))) WordB) (after p ws0) u2 v c"
    by auto
  from s2 obtain K u3 c1 c2 where u2: "u2 = K @ u3" and c: "c = K # c1 @ c2"
    and k: "sem (alts (map Lit jumpKeywords)) (after p ws0) K (u3 @ v) c1"
    and b: "sem WordB (after (after p ws0) K) u3 v c2"
    unfolding sem_Seq_Grp by blast
  from k have K: "K \<in> set jumpKeywords" "c1 = []"
    by (simp_all add: sem_alts_Lit jumpKeywords_nonempty)
  from b have u3: "u3 = []" "c2 = []" and wb: "wordBehind (after p (ws0 @ K)) \<noteq> wordAhead v"
    by simp_all
  from wb jumpKeyword_word[OF K(1)] have "\<not> wordAhead v" by simp
  with p u u2 u3 c K w show ?R by auto
next
  assume ?R
  then obtain ws0 K where h: "p = None" "u = ws0 @ K" "c = [K]" "\<forall>x\<in>set ws0. isSpace x"
    "K \<in> set jumpKeywords" "\<not> wordAhead v" by blast
  have g: "sem (alts (map Lit jumpKeywords)) (after None ws0) K ([] @ v) []"
    using h(5) by (simp add: sem_alts_Lit jumpKeywords_nonempty)
  have b: "sem WordB (after (after None ws0) K) [] v []"
    using h(6) jumpKeyword_word[OF h(5), of None ws0] by simp
  from g b have "sem (Seq (Grp (alts (map Lit jumpKeywords))) WordB) (after None ws0) (K @ []) v (K # [] @ [])"
    unfolding sem_Seq_Grp by blast
  then have "sem (Seq (Grp (alts (map Lit jumpKeywords))) WordB) (after None ws0) K v [K]" by simp
  then show ?L unfolding seqs.simps h(1,2,3) by (intro semI_Bol semI_Star h)
qed

lemma test_jump: "test (needsSemicolonPatterns ! 2) t \<longleftrightarrow> jumpShape t"
proof
  assume "test (needsSemicolonPatterns ! 2) t"
  then obtain pre u post c where t: "t = pre @ u @ post"
    and s: "sem (seqs [Bol, Star isSpace, Grp (alts (map Lit jumpKeywords)), WordB])
       (after None pre) u post c"
    unfolding test_iff pattern2 by blast
  from s have pre: "pre = []" unfolding sem_pattern2 by simp
  from s obtain ws0 K where "u = ws0 @ K" "\<forall>x\<in>set ws0. isSpace x" "K \<in> set jumpKeywords"
    "\<not> wordAhead post" unfolding sem_pattern2 by blast
  moreover have "t = u @ post" using t pre by simp
  ultimately show "jumpShape t" unfolding jumpShape_def by auto
next
  assume "jumpShape t"
  then obtain ws0 K rest where h: "t = ws0 @ K @ rest" "\<forall>x\<in>set ws0. isSpace x"
    "K \<in> set jumpKeywords" "\<not> wordAhead rest" unfolding jumpShape_def by blast
  have "sem (needsSemicolonPatterns ! 2) (after None []) (ws0 @ K) rest [K]"
    unfolding pattern2 sem_pattern2 using h by auto
  moreover have "t = [] @ (ws0 @ K) @ rest" using h(1) by simp
  ultimately show "test (needsSemicolonPatterns ! 2) t" unfolding test_iff by blast
qed

lemma pattern3:
  "needsSemicolonPatterns ! 3 =
     seqs [Plus isWord, Star isSpace, Lit ''('', Star (noneOf '')''), Lit '')'',
           NotAhead (Seq (Star isSpace) (Lit ''{''))]"
  by (simp add: needsSemicolonPatterns_def)

lemma sem_pattern3:
  "sem (seqs [Plus isWord, Star isSpace, Lit ''('', Star (noneOf '')''), Lit '')'',
           NotAhead (Seq (Star isSpace) (Lit ''{''))]) p u v c \<Longrightarrow>
   \<not> braceAhead v \<and> (\<exists>w ws args. u = w @ ws @ ''('' @ args @ '')'' \<and> w \<noteq> [] \<and>
      (\<forall>x\<in>set w. isWord x) \<and> (\<forall>x\<in>set ws. isSpace x) \<and> CHR '')'' \<notin> set args)"
  apply (simp add: noneOf_def sem_notAhead_brace del: sem.simps(10))
  apply (elim exE conjE)
  apply simp
  apply blast
  done

lemma test_call: "test (needsSemicolonPatterns ! 3) t \<longleftrightarrow> callShape t"
proof
  assume "test (needsSemicolonPatterns ! 3) t"
  then obtain pre u post c where t: "t = pre @ u @ post"
    and s: "sem (seqs [Plus isWord, Star isSpace, Lit ''('', Star (noneOf '')''), Lit '')'',
           NotAhead (Seq (Star isSpace) (Lit ''{''))]) (after None pre) u post c"
    unfolding test_iff pattern3 by blast
  from sem_pattern3[OF s] have b: "\<not> braceAhead post" by (rule conjunct1)
  from sem_pattern3[OF s] obtain w ws args where "u = w @ ws @ ''('' @ args @ '')''" "w \<noteq> []"
      "\<forall>x\<in>set w. isWord x" "\<forall>x\<in>set ws. isSpace x" "CHR '')'' \<notin> set args" by blast
  moreover from this t have "t = pre @ w @ ws @ ''('' @ args @ '')'' @ post" by simp
  ultimately show "callShape t" unfolding callShape_def using b by blast
next
  assume "callShape t"
  then obtain pre w ws args post where h: "t = pre @ w @ ws @ ''('' @ args @ '')'' @ post"
    "w \<noteq> []" "\<forall>x\<in>set w. isWord x" "\<forall>x\<in>set ws. isSpace x"
    and a: "CHR '')'' \<notin> set args" and b: "\<not> braceAhead post"
    unfolding callShape_def by blast
  have n: "\<forall>x\<in>set args. noneOf '')'' x" using a by (auto simp: noneOf_def)
  have e: "\<And>q. sem (NotAhead (Seq (Star isSpace) (Lit ''{''))) q [] post []"
    using b unfolding sem_notAhead_brace by simp
  have "sem (needsSemicolonPatterns ! 3) (after None pre) (w @ ws @ ''('' @ args @ '')'' @ []) post []"
    unfolding pattern3 seqs.simps
    by (intro semI_Plus semI_Star semI_Lit h n e)
  moreover have "t = pre @ (w @ ws @ ''('' @ args @ '')'' @ []) @ post" using h(1) by simp
  ultimately show "test (needsSemicolonPatterns ! 3) t" unfolding test_iff by blast
qed

lemma pattern4:
  "needsSemicolonPatterns ! 4 =
     seqs [Plus isWord, Star isSpace, Lit ''['', Star (noneOf '']''), Lit '']'', Star isSpace,
           Lit ''='']"
  by (simp add: needsSemicolonPatterns_def)

lemma sem_pattern4:
  "sem (seqs [Plus isWord, Star isSpace, Lit ''['', Star (noneOf '']''), Lit '']'', Star isSpace,
           Lit ''='']) p u v c \<Longrightarrow>
   \<exists>w ws idx ws'. u = w @ ws @ ''['' @ idx @ '']'' @ ws' @ ''='' \<and> w \<noteq> [] \<and>
      (\<forall>x\<in>set w. isWord x) \<and> (\<forall>x\<in>set ws. isSpace x) \<and> CHR '']'' \<notin> set idx \<and>
      (\<forall>x\<in>set ws'. isSpace x)"
  apply (simp add: noneOf_def)
  apply (elim exE conjE)
  apply simp
  apply blast
  done

lemma test_indexedAssignment:
  "test (needsSemicolonPatterns ! 4) t \<longleftrightarrow> indexedAssignmentShape t"
proof
  assume "test (needsSemicolonPatterns ! 4) t"
  then obtain pre u post c where t: "t = pre @ u @ post"
    and s: "sem (seqs [Plus isWord, Star isSpace, Lit ''['', Star (noneOf '']''), Lit '']'',
          Star isSpace, Lit ''='']) (after None pre) u post c"
    unfolding test_iff pattern4 by blast
  from sem_pattern4[OF s] obtain w ws idx ws' where "u = w @ ws @ ''['' @ idx @ '']'' @ ws' @ ''=''"
    "w \<noteq> []" "\<forall>x\<in>set w. isWord x" "\<forall>x\<in>set ws. isSpace x" "CHR '']'' \<notin> set idx"
    "\<forall>x\<in>set ws'. isSpace x" by blast
  moreover from this t have "t = pre @ w @ ws @ ''['' @ idx @ '']'' @ ws' @ ''='' @ post" by simp
  ultimately show "indexedAssignmentShape t" unfolding indexedAssignmentShape_def by blast
next
  assume "indexedAssignmentShape t"
  then obtain pre w ws idx ws' post where
    h: "t = pre @ w @ ws @ ''['' @ idx @ '']'' @ ws' @ ''='' @ post"
    "w \<noteq> []" "\<forall>x\<in>set w. isWord x" "\<forall>x\<in>set ws. isSpace x" "\<forall>x\<in>set ws'. isSpace x"
    and a: "CHR '']'' \<notin> set idx"
    unfolding indexedAssignmentShape_def by blast
  have n: "\<forall>x\<in>set idx. noneOf '']'' x" using a by (auto simp: noneOf_def)
  have "sem (needsSemicolonPatterns ! 4) (after None pre)
      (w @ ws @ ''['' @ idx @ '']'' @ ws' @ ''='') post []"
    unfolding pattern4 seqs.simps
    by (intro semI_Plus semI_Star semI_Lit semI_Lit_end h n)
  moreover have "t = pre @ (w @ ws @ ''['' @ idx @ '']'' @ ws' @ ''='') @ post"
    using h(1) by simp
  ultimately show "test (needsSemicolonPatterns ! 4) t" unfolding test_iff by blast
qed

lemma pattern5:
  "needsSemicolonPatterns ! 5 = seqs [Lit ''*'', Plus isWord, Star isSpace, Lit ''='']"
  by (simp add: needsSemicolonPatterns_def)

lemma sem_pattern5:
  "sem (seqs [Lit ''*'', Plus isWord, Star isSpace, Lit ''='']) p u v c \<Longrightarrow>
   \<exists>w ws. u = ''*'' @ w @ ws @ ''='' \<and> w \<noteq> [] \<and> (\<forall>x\<in>set w. isWord x) \<and>
      (\<forall>x\<in>set ws. isSpace x)"
  apply simp
  apply (elim exE conjE)
  apply simp
  apply blast
  done

lemma test_derefAssignment:
  "test (needsSemicolonPatterns ! 5) t \<longleftrightarrow> derefAssignmentShape t"
proof
  assume "test (needsSemicolonPatterns ! 5) t"
  then obtain pre u post c where t: "t = pre @ u @ post"
    and s: "sem (seqs [Lit ''*'', Plus isWord, Star isSpace, Lit ''='']) (after None pre) u post c"
    unfolding test_iff pattern5 by blast
  from sem_pattern5[OF s] obtain w ws where "u = ''*'' @ w @ ws @ ''=''"
    "w \<noteq> []" "\<forall>x\<in>set w. isWord x" "\<forall>x\<in>set ws. isSpace x" by blast
  moreover from this t have "t = pre @ ''*'' @ w @ ws @ ''='' @ post" by simp
  ultimately show "derefAssignmentShape t" unfolding derefAssignmentShape_def by blast
next
  assume "derefAssignmentShape t"
  then obtain pre w ws post where h: "t = pre @ ''*'' @ w @ ws @ ''='' @ post"
    "w \<noteq> []" "\<forall>x\<in>set w. isWord x" "\<forall>x\<in>set ws. isSpace x"
    unfolding derefAssignmentShape_def by blast
  have "sem (needsSemicolonPatterns ! 5) (after None pre) (''*'' @ w @ ws @ ''='') post []"
    unfolding pattern5 seqs.simps
    by (intro semI_Lit semI_Plus semI_Star semI_Lit_end h)
  moreover have "t = pre @ (''*'' @ w @ ws @ ''='') @ post" using h(1) by simp
  ultimately show "test (needsSemicolonPatterns ! 5) t" unfolding test_iff by blast
qed

lemma needsSemicolonPatterns_list:
  "needsSemicolonPatterns =
     [needsSemicolonPatterns ! 0, needsSemicolonPatterns ! 1, needsSemicolonPatterns ! 2,
      needsSemicolonPatterns ! 3, needsSemicolonPatterns ! 4, needsSemicolonPatterns ! 5]"
  by (simp add: needsSemicolonPatterns_def)

lemma needs_iff_shape:
  "list_ex (\<lambda>pattern. test pattern t) needsSemicolonPatterns \<longleftrightarrow> needsTerminatorShape t"
proof -
  have "list_ex (\<lambda>pattern. test pattern t) needsSemicolonPatterns \<longleftrightarrow>
      list_ex (\<lambda>pattern. test pattern t)
        [needsSemicolonPatterns ! 0, needsSemicolonPatterns ! 1, needsSemicolonPatterns ! 2,
         needsSemicolonPatterns ! 3, needsSemicolonPatterns ! 4, needsSemicolonPatterns ! 5]"
    using needsSemicolonPatterns_list by simp
  also have "\<dots> \<longleftrightarrow> needsTerminatorShape t"
    unfolding needsTerminatorShape_def
    by (simp only: list_ex_Nil_iff list_ex_Cons_iff test_declaration test_assignment test_jump test_call
        test_indexedAssignment test_derefAssignment simp_thms)
  finally show ?thesis .
qed

lemma shouldAdd_shape: "shouldAddSemicolon line \<Longrightarrow> needsTerminatorShape (trim line)"
  unfolding shouldAddSemicolon_def Let_def needs_iff_shape[symmetric]
  by (simp split: if_splits)

lemma test_functionPattern: "test functionPattern l \<longleftrightarrow> functionDefinitionLine l"
proof
  assume "test functionPattern l"
  then obtain c where "match functionPattern l = Some c"
    using match_None_iff[of functionPattern l] by (cases "match functionPattern l") auto
  from match_functionPattern[OF this] show "functionDefinitionLine l"
    unfolding functionDefinitionLine_def
    apply (elim exE conjE)
    apply simp
    apply blast
    done
next
  assume "functionDefinitionLine l"
  then obtain ws0 T ws1 n0 n ws2 ps ws3 rest where
    l: "l = ws0 @ T @ ws1 @ (n0 # n) @ ws2 @ ''('' @ ps @ '')'' @ ws3 @ ''{'' @ rest"
    and h: "\<forall>x\<in>set ws0. isSpace x" "ws1 \<noteq> []" "\<forall>x\<in>set ws1. isSpace x"
      "\<forall>x\<in>set ws2. isSpace x" "\<forall>x\<in>set ws3. isSpace x"
    and T: "T \<in> set typeKeywords" and n: "isAlphaU n0" "\<forall>x\<in>set n. isWord x"
    and p: "CHR '')'' \<notin> set ps"
    unfolding functionDefinitionLine_def by blast
  have g1: "\<And>q v. sem (alts (map Lit typeKeywords)) q T v []"
    using T by (simp add: sem_alts_Lit typeKeywords_nonempty)
  have g2: "\<And>q v. sem (Seq (Cls isAlphaU) (Star isWord)) q (n0 # n) v []"
    unfolding sem_Seq_Cls using n by simp
  have g3: "\<And>q v. sem (Star (noneOf '')'')) q ps v []"
    using p by (auto simp: noneOf_def)
  have "sem functionPattern None
      (ws0 @ T @ ws1 @ (n0 # n) @ ws2 @ ''('' @ ps @ '')'' @ ws3 @ ''{'') rest [T, n0 # n, ps]"
    unfolding functionPattern_def seqs.simps
    by (intro semI_Bol semI_Star semI_Grp0 semI_Plus semI_Lit semI_Lit_end h g1 g2 g3)
  then have "sem functionPattern (after None [])
      (ws0 @ T @ ws1 @ (n0 # n) @ ws2 @ ''('' @ ps @ '')'' @ ws3 @ ''{'') rest [T, n0 # n, ps]"
    by simp
  moreover have "l = [] @ (ws0 @ T @ ws1 @ (n0 # n) @ ws2 @ ''('' @ ps @ '')'' @ ws3 @ ''{'') @ rest"
    using l by simp
  ultimately show "test functionPattern l" unfolding test_iff by blast
qed

lemma scanLine_None_if_not_definition: "\<not> functionDefinitionLine l \<Longrightarrow> scanLine l = None"
  unfolding test_functionPattern[symmetric] match_None_iff[symmetric]
  by (simp add: scanLine_def)

text \<open>
  Claim C6. A line whose trimmed text is not empty and ends with an opening brace, a
  closing brace, a comma, a colon or a backslash is never given a terminator.
\<close>

theorem C6_structural_end:
  "trim text \<noteq> [] \<Longrightarrow> last (trim text) \<in> set (''{},:'' @ [backslash]) \<Longrightarrow>
     \<not> shouldAddSemicolon text"
  using test_structuralEnd[of "trim text"] unfolding shouldAddSemicolon_def Let_def by simp

theorem C6_structural_end_witness:
  "trim ''  struct Point {'' \<noteq> [] \<and> last (trim ''  struct Point {'') \<in> set (''{},:'' @ [backslash]) \<and>
   \<not> shouldAddSemicolon ''  struct Point {''"
proof -
  have 1: "trim ''  struct Point {'' \<noteq> []" by code_simp
  have 2: "last (trim ''  struct Point {'') \<in> set (''{},:'' @ [backslash])" by code_simp
  from 1 2 C6_structural_end[OF 1 2] show ?thesis by simp
qed

text \<open>
  Claim C7. A line whose trimmed text begins with \<^verbatim>\<open>if\<close>, \<^verbatim>\<open>else\<close>, \<^verbatim>\<open>else if\<close>,
  \<^verbatim>\<open>while\<close>, \<^verbatim>\<open>for\<close>, \<^verbatim>\<open>do\<close> or \<^verbatim>\<open>switch\<close> as a whole word (the keyword is followed
  by the end of the line or by a code unit that is not a word character) is never given a
  terminator. Both \<^verbatim>\<open>if (x == 5)\<close> and \<^verbatim>\<open>if (x = 5)\<close> are classified false, although the
  second matches the assignment pattern of the needs-a-terminator list.
\<close>

theorem C7_control_keyword:
  "(kw \<in> set [''if'', ''else'', ''while'', ''for'', ''do'', ''switch''] \<and>
      trim text = kw @ rest \<and> \<not> wordAhead rest \<longrightarrow> \<not> shouldAddSemicolon text) \<and>
   (ws \<noteq> [] \<and> list_all isSpace ws \<and> trim text = ''else'' @ ws @ ''if'' @ rest \<and>
      \<not> wordAhead rest \<longrightarrow> \<not> shouldAddSemicolon text) \<and>
   \<not> shouldAddSemicolon ''if (x == 5)'' \<and>
   \<not> shouldAddSemicolon ''if (x = 5)'' \<and>
   test (needsSemicolonPatterns ! 1) ''if (x = 5)''"
proof (intro conjI impI)
  assume a: "kw \<in> set [''if'', ''else'', ''while'', ''for'', ''do'', ''switch''] \<and>
      trim text = kw @ rest \<and> \<not> wordAhead rest"
  then have "test rxControl (trim text)" using test_control_kw[of kw rest] by simp
  then show "\<not> shouldAddSemicolon text" by (rule not_should_if_test_control)
next
  assume a: "ws \<noteq> [] \<and> list_all isSpace ws \<and> trim text = ''else'' @ ws @ ''if'' @ rest \<and>
      \<not> wordAhead rest"
  then obtain x ws' where ws: "ws = x # ws'" "isSpace x" by (cases ws) auto
  have "\<not> isWord x" using ws(2) by (auto simp: isSpace_def isWord_def isAlphaU_def)
  then have "\<not> wordAhead (ws @ ''if'' @ rest)" using ws(1) by (simp add: wordAhead_def)
  then have "test rxControl (''else'' @ ws @ ''if'' @ rest)"
    by (intro test_control_kw) simp_all
  with a have "test rxControl (trim text)" by simp
  then show "\<not> shouldAddSemicolon text" by (rule not_should_if_test_control)
next
  show "\<not> shouldAddSemicolon ''if (x == 5)''" by code_simp
  show "\<not> shouldAddSemicolon ''if (x = 5)''" by code_simp
  show "test (needsSemicolonPatterns ! 1) ''if (x = 5)''" by code_simp
qed

theorem C7_control_keyword_witness:
  "''while'' \<in> set [''if'', ''else'', ''while'', ''for'', ''do'', ''switch''] \<and>
   trim ''    while (i < n)'' = ''while'' @ '' (i < n)'' \<and> \<not> wordAhead '' (i < n)'' \<and>
   \<not> shouldAddSemicolon ''    while (i < n)'' \<and>
   '' '' \<noteq> [] \<and> list_all isSpace '' '' \<and> trim ''else if (a)'' = ''else'' @ '' '' @ ''if'' @ '' (a)'' \<and>
   \<not> wordAhead '' (a)'' \<and> \<not> shouldAddSemicolon ''else if (a)''"
proof -
  have 1: "''while'' \<in> set [''if'', ''else'', ''while'', ''for'', ''do'', ''switch''] \<and>
      trim ''    while (i < n)'' = ''while'' @ '' (i < n)'' \<and> \<not> wordAhead '' (i < n)''"
    by code_simp
  have 2: "'' '' \<noteq> [] \<and> list_all isSpace '' '' \<and>
      trim ''else if (a)'' = ''else'' @ '' '' @ ''if'' @ '' (a)'' \<and> \<not> wordAhead '' (a)''"
    by code_simp
  from 1 C7_control_keyword[of "''while''" "''    while (i < n)''" "'' (i < n)''"]
  have 3: "\<not> shouldAddSemicolon ''    while (i < n)''" by blast
  from 2 C7_control_keyword[of _ "''else if (a)''" "'' (a)''" "'' ''"]
  have 4: "\<not> shouldAddSemicolon ''else if (a)''" by blast
  from 1 2 3 4 show ?thesis by blast
qed

text \<open>
  Claim C8. A line whose trimmed text is empty or already ends with the terminator is
  never given another one; \<^verbatim>\<open>int x = 5\<close> and \<^verbatim>\<open>return 0\<close> are given one, \<^verbatim>\<open>int x = 5;\<close>
  and \<^verbatim>\<open>return 0;\<close> are not.
\<close>

theorem C8_never_double_inserts:
  "(trim text = [] \<or> last (trim text) = CHR '';'' \<longrightarrow> \<not> shouldAddSemicolon text) \<and>
   shouldAddSemicolon ''int x = 5'' \<and> shouldAddSemicolon ''return 0'' \<and>
   \<not> shouldAddSemicolon ''int x = 5;'' \<and> \<not> shouldAddSemicolon ''return 0;''"
proof (intro conjI impI)
  assume "trim text = [] \<or> last (trim text) = CHR '';''"
  then show "\<not> shouldAddSemicolon text"
    by (auto simp: shouldAddSemicolon_def Let_def endsWith_single)
next
  show "shouldAddSemicolon ''int x = 5''" by code_simp
  show "shouldAddSemicolon ''return 0''" by code_simp
  show "\<not> shouldAddSemicolon ''int x = 5;''" by code_simp
  show "\<not> shouldAddSemicolon ''return 0;''" by code_simp
qed

theorem C8_never_double_inserts_witness:
  "(trim ''  x++;  '' = [] \<or> last (trim ''  x++;  '') = CHR '';'') \<and>
   \<not> shouldAddSemicolon ''  x++;  '' \<and>
   (trim ''   '' = [] \<or> last (trim ''   '') = CHR '';'') \<and> \<not> shouldAddSemicolon ''   ''"
proof -
  have 1: "trim ''  x++;  '' = [] \<or> last (trim ''  x++;  '') = CHR '';''" by code_simp
  have 2: "trim ''   '' = [] \<or> last (trim ''   '') = CHR '';''" by code_simp
  from 1 C8_never_double_inserts[of "''  x++;  ''"] have 3: "\<not> shouldAddSemicolon ''  x++;  ''"
    by blast
  from 2 C8_never_double_inserts[of "''   ''"] have 4: "\<not> shouldAddSemicolon ''   ''"
    by blast
  from 1 2 3 4 show ?thesis by blast
qed

text \<open>
  Claim C4. When no line of the document has a trimmed text that begins with the include
  directive, or when no line after the last include line is an entry-point signature (return
  type \<^verbatim>\<open>int\<close> or \<^verbatim>\<open>void\<close>, name \<^verbatim>\<open>main\<close>, opening parenthesis), the synthesizer returns the
  empty sequence, and not an error, whatever function definitions the document holds.
\<close>

theorem C4_no_anchor_empty:
  "((\<forall>l\<in>set (split_nl doc). \<not> isIncludeLine l) \<longrightarrow> autoGeneratePrototypes doc = Inr []) \<and>
   (isLastInclude (split_nl doc) li \<and>
      (\<forall>l\<in>set (drop (li + 1) (split_nl doc)). \<not> entryPointLine l) \<longrightarrow>
    autoGeneratePrototypes doc = Inr [])"
proof (intro conjI impI)
  assume "\<forall>l\<in>set (split_nl doc). \<not> isIncludeLine l"
  then show "autoGeneratePrototypes doc = Inr []"
    unfolding no_include_iff by (rule autoGen_no_include)
next
  assume "isLastInclude (split_nl doc) li \<and>
      (\<forall>l\<in>set (drop (li + 1) (split_nl doc)). \<not> entryPointLine l)"
  then show "autoGeneratePrototypes doc = Inr []"
    unfolding isLastInclude_iff no_entryPoint_iff by (simp add: autoGen_no_main)
qed

theorem C4_no_anchor_empty_witness:
  "list_all (\<lambda>l. \<not> isIncludeLine l) (split_nl exampleNoInclude) \<and>
   scanLine (split_nl exampleNoInclude ! 2) \<noteq> None \<and>
   autoGeneratePrototypes exampleNoInclude = Inr [] \<and>
   isLastInclude (split_nl exampleNoMain) 0 \<and>
   list_all (\<lambda>l. \<not> entryPointLine l) (drop (0 + 1) (split_nl exampleNoMain)) \<and>
   scanLine (split_nl exampleNoMain ! 1) \<noteq> None \<and>
   autoGeneratePrototypes exampleNoMain = Inr []"
proof -
  have 1: "list_all (\<lambda>l. \<not> isIncludeLine l) (split_nl exampleNoInclude)" by code_simp
  have 2: "isLastInclude (split_nl exampleNoMain) 0" by code_simp
  have 3: "list_all (\<lambda>l. \<not> entryPointLine l) (drop (0 + 1) (split_nl exampleNoMain))"
    unfolding test_rxMain[symmetric] by code_simp
  have 4: "scanLine (split_nl exampleNoInclude ! 2) \<noteq> None" by code_simp
  have 5: "scanLine (split_nl exampleNoMain ! 1) \<noteq> None" by code_simp
  from 1 C4_no_anchor_empty[of exampleNoInclude]
  have 6: "autoGeneratePrototypes exampleNoInclude = Inr []" by (simp add: list_all_iff)
  from 2 3 C4_no_anchor_empty[of exampleNoMain 0]
  have 7: "autoGeneratePrototypes exampleNoMain = Inr []" by (simp add: list_all_iff)
  from 1 2 3 4 5 6 7 show ?thesis by blast
qed

text \<open>
  Claim C5. Every prototype of the output is the prototype of a line that lies after the
  entry-point line and matches the function-definition pattern, with the type, name and
  parameters that the pattern captured there; the captured name is never \<^verbatim>\<open>main\<close>, and the
  prototype is not an entry-point signature itself.
\<close>

theorem C5_never_invents:
  assumes "autoGeneratePrototypes doc = Inr out" and "p \<in> set out"
  shows "\<exists>li ml i T n ps.
     isLastInclude (split_nl doc) li \<and> isEntryPoint (split_nl doc) li ml \<and>
     ml < i \<and> i < length (split_nl doc) \<and>
     match functionPattern (split_nl doc ! i) = Some [T, n, ps] \<and> n \<noteq> ''main'' \<and>
     p = T @ '' '' @ n @ ''('' @ trim ps @ '');'' \<and> \<not> entryPointLine p"
proof (cases doc rule: autoGen_cases)
  case noInclude
  with assms show ?thesis by simp
next
  case (noMain li)
  with assms show ?thesis by simp
next
  case (anchored li ml)
  let ?lines = "split_nl doc"
  from autoGen_lines[OF anchored] assms
  obtain l where l: "l \<in> set (drop (ml + 1) ?lines)" and s: "scanLine l \<noteq> None"
    and p: "p = prototype (the (scanLine l))"
    by (auto split: option.splits)
  from s obtain f where f: "scanLine l = Some f" by blast
  from l obtain i where i: "l = ?lines ! i" "ml + 1 \<le> i" "i < length ?lines"
    unfolding set_drop_nth by blast
  from f obtain T n ps where m: "match functionPattern l = Some [T, n, ps]"
    and n: "n \<noteq> ''main''"
    and ff: "f = \<lparr>name = n, prototype = T @ '' '' @ n @ ''('' @ trim ps @ '');''\<rparr>"
    unfolding scanLine_Some by blast
  have pp: "p = T @ '' '' @ n @ ''('' @ trim ps @ '');''" using p f ff by simp
  from match_functionPattern[OF m] have T: "T \<in> set typeKeywords" by auto
  from scanLine_name[OF f] ff have nn: "n \<noteq> []" "\<forall>x\<in>set n. isWord x"
    by (simp_all add: list_all_iff)
  have "\<not> entryPointLine (T @ '' '' @ n @ ''('' @ (trim ps @ '');''))"
    by (rule proto_not_entry[OF T nn n])
  then have ne: "\<not> entryPointLine p" using pp by simp
  have "ml < i" using i(2) by simp
  with anchored i m n pp ne show ?thesis by blast
qed

theorem C5_never_invents_witness:
  "autoGeneratePrototypes exampleAdd = Inr [''int add(int a, int b);''] \<and>
   ''int add(int a, int b);'' \<in> set [''int add(int a, int b);''] \<and>
   (\<exists>li ml i T n ps.
     isLastInclude (split_nl exampleAdd) li \<and> isEntryPoint (split_nl exampleAdd) li ml \<and>
     ml < i \<and> i < length (split_nl exampleAdd) \<and>
     match functionPattern (split_nl exampleAdd ! i) = Some [T, n, ps] \<and> n \<noteq> ''main'' \<and>
     ''int add(int a, int b);'' = T @ '' '' @ n @ ''('' @ trim ps @ '');'' \<and>
     \<not> entryPointLine ''int add(int a, int b);'')"
proof -
  have 1: "autoGeneratePrototypes exampleAdd = Inr [''int add(int a, int b);'']" by code_simp
  have 2: "''int add(int a, int b);'' \<in> set [''int add(int a, int b);'']" by simp
  from 1 2 C5_never_invents[OF 1 2] show ?thesis by blast
qed

text \<open>
  Claim C9. Both functions return a value on every string. Each is a total function of the
  model, defined by terminating recursion (the matcher by recursion on the pattern, the
  three loops with a measure), and nothing the classifier calls can raise. The
  synthesizer has one place that could raise, the construction of a pattern from a function
  name, and never reaches its error: the result is always a list. An unrecognised shape
  gives the no-action result: the classifier answers true only on a trimmed line of one of
  the six shapes that need a terminator, and the synthesizer, on a document with an include
  line and an entry point but no later line of the function-definition shape, returns the
  empty list; so it does on the empty document and on a document of garbage after its entry
  point, and the classifier answers false on the empty string and on seven garbage lines.
\<close>

theorem C9_total:
  "(\<exists>ps. autoGeneratePrototypes doc = Inr ps) \<and>
   (shouldAddSemicolon line \<longrightarrow> needsTerminatorShape (trim line)) \<and>
   (isLastInclude (split_nl doc) li \<and> isEntryPoint (split_nl doc) li ml \<and>
      (\<forall>l\<in>set (drop (ml + 1) (split_nl doc)). \<not> functionDefinitionLine l) \<longrightarrow>
    autoGeneratePrototypes doc = Inr []) \<and>
   autoGeneratePrototypes [] = Inr [] \<and>
   autoGeneratePrototypes exampleGarbage = Inr [] \<and>
   \<not> shouldAddSemicolon [] \<and>
   \<not> shouldAddSemicolon '')))((('' \<and>
   \<not> shouldAddSemicolon ''='' \<and>
   \<not> shouldAddSemicolon ''int'' \<and>
   \<not> shouldAddSemicolon ''((((a'' \<and>
   \<not> shouldAddSemicolon ''x++'' \<and>
   \<not> shouldAddSemicolon ''x == 5'' \<and>
   \<not> shouldAddSemicolon ''returnx''"
proof (intro conjI impI)
  show "\<exists>ps. autoGeneratePrototypes doc = Inr ps" by (rule autoGen_total)
next
  assume "shouldAddSemicolon line"
  then show "needsTerminatorShape (trim line)" by (rule shouldAdd_shape)
next
  assume a: "isLastInclude (split_nl doc) li \<and> isEntryPoint (split_nl doc) li ml \<and>
      (\<forall>l\<in>set (drop (ml + 1) (split_nl doc)). \<not> functionDefinitionLine l)"
  then have "\<forall>l\<in>set (drop (ml + 1) (split_nl doc)). scanLine l = None"
    using scanLine_None_if_not_definition by blast
  then have "filter (\<lambda>l. case scanLine l of None \<Rightarrow> False
                | Some f \<Rightarrow> \<not> declaredIn (join_nl (slice (split_nl doc) (li + 1) ml)) (name f))
        (drop (ml + 1) (split_nl doc)) = []"
    by (simp add: filter_empty_conv)
  moreover from a have "isLastInclude (split_nl doc) li" "isEntryPoint (split_nl doc) li ml"
    by simp_all
  ultimately show "autoGeneratePrototypes doc = Inr []"
    using autoGen_lines[of doc li ml] by simp
next
  show "autoGeneratePrototypes [] = Inr []" by code_simp
  show "autoGeneratePrototypes exampleGarbage = Inr []" by code_simp
  show "\<not> shouldAddSemicolon []" by code_simp
  show "\<not> shouldAddSemicolon '')))(((''" by code_simp
  show "\<not> shouldAddSemicolon ''=''" by code_simp
  show "\<not> shouldAddSemicolon ''int''" by code_simp
  show "\<not> shouldAddSemicolon ''((((a''" by code_simp
  show "\<not> shouldAddSemicolon ''x++''" by code_simp
  show "\<not> shouldAddSemicolon ''x == 5''" by code_simp
  show "\<not> shouldAddSemicolon ''returnx''" by code_simp
qed

theorem C9_total_witness:
  "shouldAddSemicolon ''  total = total + 1'' \<and>
   needsTerminatorShape (trim ''  total = total + 1'') \<and>
   isLastInclude (split_nl exampleGarbage) 0 \<and> isEntryPoint (split_nl exampleGarbage) 0 1 \<and>
   list_all (\<lambda>l. \<not> functionDefinitionLine l) (drop (1 + 1) (split_nl exampleGarbage)) \<and>
   autoGeneratePrototypes exampleGarbage = Inr []"
proof -
  have 1: "shouldAddSemicolon ''  total = total + 1''" by code_simp
  have 2: "isLastInclude (split_nl exampleGarbage) 0" by code_simp
  have 3: "isEntryPoint (split_nl exampleGarbage) 0 1"
    unfolding isEntryPoint_def test_rxMain[symmetric] by code_simp
  have 4: "list_all (\<lambda>l. \<not> functionDefinitionLine l) (drop (1 + 1) (split_nl exampleGarbage))"
    unfolding test_functionPattern[symmetric] by code_simp
  from 1 C9_total[of _ "''  total = total + 1''"]
  have 5: "needsTerminatorShape (trim ''  total = total + 1'')" by blast
  from 2 3 4 C9_total[of exampleGarbage _ 0 1]
  have 6: "autoGeneratePrototypes exampleGarbage = Inr []" by (simp add: list_all_iff)
  from 1 2 3 4 5 6 show ?thesis by blast
qed

text \<open>
  Claim C10. The output has one prototype for each line after the entry point that matches
  the function-definition pattern with a name other than \<^verbatim>\<open>main\<close> that the declaration area
  does not declare: the test looks at the declaration area only, never at the prototypes
  already emitted, so a name defined on two lines is emitted twice.
\<close>

theorem C10_no_deduplication:
  "(isLastInclude (split_nl doc) li \<and> isEntryPoint (split_nl doc) li ml \<longrightarrow>
      autoGeneratePrototypes doc =
        Inr (map (\<lambda>l. prototype (the (scanLine l)))
          (filter (\<lambda>l. case scanLine l of None \<Rightarrow> False
                     | Some f \<Rightarrow> \<not> declaredIn (join_nl (slice (split_nl doc) (li + 1) ml)) (name f))
             (drop (ml + 1) (split_nl doc))))) \<and>
   autoGeneratePrototypes exampleTwice = Inr [''int b(int x);'', ''int b(char c);'']"
proof (intro conjI impI)
  assume "isLastInclude (split_nl doc) li \<and> isEntryPoint (split_nl doc) li ml"
  then show "autoGeneratePrototypes doc =
        Inr (map (\<lambda>l. prototype (the (scanLine l)))
          (filter (\<lambda>l. case scanLine l of None \<Rightarrow> False
                     | Some f \<Rightarrow> \<not> declaredIn (join_nl (slice (split_nl doc) (li + 1) ml)) (name f))
             (drop (ml + 1) (split_nl doc))))"
    using autoGen_lines by blast
next
  show "autoGeneratePrototypes exampleTwice = Inr [''int b(int x);'', ''int b(char c);'']"
    by code_simp
qed

theorem C10_no_deduplication_witness:
  "isLastInclude (split_nl exampleTwice) 0 \<and> isEntryPoint (split_nl exampleTwice) 0 1 \<and>
   autoGeneratePrototypes exampleTwice =
        Inr (map (\<lambda>l. prototype (the (scanLine l)))
          (filter (\<lambda>l. case scanLine l of None \<Rightarrow> False
                     | Some f \<Rightarrow> \<not> declaredIn (join_nl (slice (split_nl exampleTwice) (0 + 1) 1)) (name f))
             (drop (1 + 1) (split_nl exampleTwice))))"
proof -
  have 1: "isLastInclude (split_nl exampleTwice) 0" by code_simp
  have 2: "isEntryPoint (split_nl exampleTwice) 0 1"
    unfolding isEntryPoint_def test_rxMain[symmetric] by code_simp
  from 1 2 C10_no_deduplication[of exampleTwice 0 1] show ?thesis by blast
qed

text \<open>
  Claim C1, as the code has it. A function defined after the entry point is left out of the
  output exactly when the declaration area (the lines strictly between the last include
  line and the entry-point line, joined by newlines) holds, not directly after a word
  character, the name of the function, optional white space, an argument list in
  parentheses that contains no closing parenthesis, optional white space and the
  terminator.
\<close>

theorem C1_declared_iff_excluded:
  assumes out: "autoGeneratePrototypes doc = Inr out"
    and li: "isLastInclude (split_nl doc) li" and ml: "isEntryPoint (split_nl doc) li ml"
    and i: "ml < i" "i < length (split_nl doc)" and f: "scanLine (split_nl doc ! i) = Some f"
  shows "prototype f \<notin> set out \<longleftrightarrow> declaredIn (join_nl (slice (split_nl doc) (li + 1) ml)) (name f)"
proof -
  let ?lines = "split_nl doc"
  let ?area = "join_nl (slice ?lines (li + 1) ml)"
  let ?Q = "\<lambda>l. case scanLine l of None \<Rightarrow> False | Some g \<Rightarrow> \<not> declaredIn ?area (name g)"
  have o: "out = map (\<lambda>l. prototype (the (scanLine l))) (filter ?Q (drop (ml + 1) ?lines))"
    using autoGen_lines[OF li ml] out by simp
  have mem: "?lines ! i \<in> set (drop (ml + 1) ?lines)" by (rule in_found[OF i f])
  show ?thesis
  proof
    assume n: "prototype f \<notin> set out"
    show "declaredIn ?area (name f)"
    proof (rule ccontr)
      assume "\<not> declaredIn ?area (name f)"
      then have "?Q (?lines ! i)" using f by simp
      with mem have "?lines ! i \<in> set (filter ?Q (drop (ml + 1) ?lines))" by simp
      then have "prototype (the (scanLine (?lines ! i))) \<in> set out" unfolding o by simp
      with f n show False by simp
    qed
  next
    assume d: "declaredIn ?area (name f)"
    show "prototype f \<notin> set out"
    proof
      assume "prototype f \<in> set out"
      then obtain l where l: "?Q l" and p: "prototype f = prototype (the (scanLine l))"
        unfolding o by auto
      from l obtain g where g: "scanLine l = Some g" "\<not> declaredIn ?area (name g)"
        by (auto split: option.splits)
      from p g have "prototype f = prototype g" by simp
      from proto_name_unique[OF f g(1) this] d g(2) show False by simp
    qed
  qed
qed

theorem C1_declared_iff_excluded_witness:
  "autoGeneratePrototypes exampleDeclared = Inr [''int sub(int a);''] \<and>
   isLastInclude (split_nl exampleDeclared) 0 \<and> isEntryPoint (split_nl exampleDeclared) 0 2 \<and>
   (2::nat) < 4 \<and> (4::nat) < length (split_nl exampleDeclared) \<and>
   scanLine (split_nl exampleDeclared ! 4) =
     Some \<lparr>name = ''add'', prototype = ''int add(int a, int b);''\<rparr> \<and>
   ''int add(int a, int b);'' \<notin> set [''int sub(int a);''] \<and>
   declaredIn (join_nl (slice (split_nl exampleDeclared) (0 + 1) 2)) ''add''"
proof -
  have 1: "autoGeneratePrototypes exampleDeclared = Inr [''int sub(int a);'']" by code_simp
  have 2: "isLastInclude (split_nl exampleDeclared) 0" by code_simp
  have 3: "isEntryPoint (split_nl exampleDeclared) 0 2"
    unfolding isEntryPoint_def test_rxMain[symmetric] by code_simp
  have 4: "(2::nat) < 4" by simp
  have 5: "(4::nat) < length (split_nl exampleDeclared)" by code_simp
  have 6: "scanLine (split_nl exampleDeclared ! 4) =
     Some \<lparr>name = ''add'', prototype = ''int add(int a, int b);''\<rparr>" by code_simp
  have 7: "''int add(int a, int b);'' \<notin> set [''int sub(int a);'']" by simp
  from C1_declared_iff_excluded[OF 1 2 3 4 5 6] 7
  have 8: "declaredIn (join_nl (slice (split_nl exampleDeclared) (0 + 1) 2)) ''add''" by simp
  from 1 2 3 4 5 6 7 8 show ?thesis by blast
qed

text \<open>
  The claim as stated, with an argument list of any content, fails: the declaration
  \<^verbatim>\<open>void reg(void (*cb)(int));\<close> holds the name, an argument list in parentheses and the
  terminator, and still the prototype of \<^verbatim>\<open>reg\<close> is emitted.
\<close>

theorem C1_function_pointer_counterexample:
  "isLastInclude (split_nl exampleFnPtr) 0 \<and> isEntryPoint (split_nl exampleFnPtr) 0 2 \<and>
   scanLine (split_nl exampleFnPtr ! 4) = Some \<lparr>name = ''reg'', prototype = ''void reg(int x);''\<rparr> \<and>
   join_nl (slice (split_nl exampleFnPtr) (0 + 1) 2) = ''void reg(void (*cb)(int));'' \<and>
   declaredAnyContent ''void reg(void (*cb)(int));'' ''reg'' \<and>
   autoGeneratePrototypes exampleFnPtr = Inr [''void reg(int x);''] \<and>
   ''void reg(int x);'' \<in> set [''void reg(int x);'']"
proof -
  have 1: "isLastInclude (split_nl exampleFnPtr) 0" by code_simp
  have 2: "isEntryPoint (split_nl exampleFnPtr) 0 2"
    unfolding isEntryPoint_def test_rxMain[symmetric] by code_simp
  have 3: "scanLine (split_nl exampleFnPtr ! 4) =
      Some \<lparr>name = ''reg'', prototype = ''void reg(int x);''\<rparr>" by code_simp
  have 4: "join_nl (slice (split_nl exampleFnPtr) (0 + 1) 2) = ''void reg(void (*cb)(int));''"
    by code_simp
  have 5: "declaredAnyContent ''void reg(void (*cb)(int));'' ''reg''"
    unfolding declaredAnyContent_def
    apply (rule exI[of _ "''void ''"])
    apply (rule exI[of _ "[]"])
    apply (rule exI[of _ "''void (*cb)(int)''"])
    apply (rule exI[of _ "[]"])
    apply (rule exI[of _ "[]"])
    apply (simp add: isWord_def isAlphaU_def)
    done
  have 6: "autoGeneratePrototypes exampleFnPtr = Inr [''void reg(int x);'']" by code_simp
  from 1 2 3 4 5 6 show ?thesis by simp
qed



end
